theory Spec2Isabelle
  imports Main "HOL-Library.List_Lexorder" "HOL-Library.Char_ord" "HOL-Library.Multiset"
begin

section \<open>The directory listing tool of smolcc (src/smolcc/tools/ls_tool.py)\<close>

text \<open>
  The tool is a method \<open>LSTool.forward\<close> with four helpers, \<open>_list_directory\<close>,
  \<open>_should_skip\<close>, \<open>_create_file_tree\<close> and \<open>_print_tree\<close>. Python strings are modelled
  as \<^typ>\<open>string\<close>, compared by \<open>HOL-Library.List_Lexorder\<close> over \<open>HOL-Library.Char_ord\<close>,
  which is Python's ordering of \<open>str\<close> by code point. The operating system is POSIX:
  \<open>os.path.sep\<close> is the slash, and \<open>os.path\<close> is \<open>posixpath\<close>.
\<close>

subsection \<open>Python string methods\<close>

definition os_sep :: char where
  "os_sep = CHR ''/''"

text \<open>\<open>s.startswith(p)\<close> and \<open>s.endswith(p)\<close>.\<close>

fun startswith :: "string \<Rightarrow> string \<Rightarrow> bool" where
  "startswith s [] = True"
| "startswith [] (p # ps) = False"
| "startswith (c # cs) (p # ps) = (c = p \<and> startswith cs ps)"

definition endswith :: "string \<Rightarrow> string \<Rightarrow> bool" where
  "endswith s p = startswith (rev s) (rev p)"

text \<open>\<open>sub in s\<close>: \<open>sub\<close> occurs in \<open>s\<close> as a contiguous substring.\<close>

fun str_contains :: "string \<Rightarrow> string \<Rightarrow> bool" where
  "str_contains sub [] = (sub = [])"
| "str_contains sub (c # cs) = (startswith (c # cs) sub \<or> str_contains sub cs)"

text \<open>\<open>s.rstrip(c)\<close> for a single character \<open>c\<close>: all trailing occurrences are removed.\<close>

definition rstrip :: "string \<Rightarrow> char \<Rightarrow> string" where
  "rstrip s c = rev (dropWhile (\<lambda>x. x = c) (rev s))"

text \<open>\<open>s.replace(old, new)\<close> for single characters.\<close>

definition str_replace :: "string \<Rightarrow> char \<Rightarrow> char \<Rightarrow> string" where
  "str_replace s old new = map (\<lambda>x. if x = old then new else x) s"

text \<open>\<open>s.split(c)\<close>: the pieces between the occurrences of \<open>c\<close>; never the empty list.\<close>

fun str_split :: "string \<Rightarrow> char \<Rightarrow> string list" where
  "str_split [] c = [[]]"
| "str_split (x # xs) c =
     (if x = c then [] # str_split xs c
      else (case str_split xs c of
              [] \<Rightarrow> [[x]]
            | w # ws \<Rightarrow> (x # w) # ws))"

text \<open>\<open>c.join(parts)\<close>.\<close>

fun str_join :: "char \<Rightarrow> string list \<Rightarrow> string" where
  "str_join c [] = []"
| "str_join c [p] = p"
| "str_join c (p # q # ps) = p @ c # str_join c (q # ps)"

text \<open>\<open>str(n)\<close> for a natural number: its decimal digits.\<close>

definition digit_char :: "nat \<Rightarrow> char" where
  "digit_char d = char_of (48 + d)"

function str_of_nat :: "nat \<Rightarrow> string" where
  "str_of_nat n = (if n < 10 then [digit_char n] else str_of_nat (n div 10) @ [digit_char (n mod 10)])"
  by pat_completeness auto
termination
  by (relation "measure id") auto

subsection \<open>The functions of \<open>posixpath\<close> the tool calls\<close>

datatype py_error = PermissionError | FileNotFoundError | NotADirectoryError | OSError | ValueError

text \<open>\<open>os.path.isabs\<close>, \<open>os.path.join\<close> of two arguments and \<open>os.path.basename\<close>.\<close>

definition isabs :: "string \<Rightarrow> bool" where
  "isabs s = startswith s [os_sep]"

definition path_join :: "string \<Rightarrow> string \<Rightarrow> string" where
  "path_join a b =
     (if startswith b [os_sep] then b
      else if a = [] \<or> endswith a [os_sep] then a @ b
      else a @ os_sep # b)"

definition basename :: "string \<Rightarrow> string" where
  "basename p = rev (takeWhile (\<lambda>x. x \<noteq> os_sep) (rev p))"

text \<open>
  \<open>os.path.normpath\<close>: the loop over the components keeps \<open>new_comps\<close>; one or two
  leading slashes are kept, three or more become one.
\<close>

definition normpath_step :: "nat \<Rightarrow> string list \<Rightarrow> string \<Rightarrow> string list" where
  "normpath_step initial_slashes new_comps cmp =
     (if cmp = [] \<or> cmp = ''.'' then new_comps
      else if cmp \<noteq> ''..'' \<or> (initial_slashes = 0 \<and> new_comps = [])
              \<or> (new_comps \<noteq> [] \<and> last new_comps = ''..'')
           then new_comps @ [cmp]
      else if new_comps \<noteq> [] then butlast new_comps
      else new_comps)"

definition normpath :: "string \<Rightarrow> string" where
  "normpath path =
     (if path = [] then ''.''
      else
        let initial_slashes =
              (if startswith path [os_sep] then
                 (if startswith path [os_sep, os_sep] \<and> \<not> startswith path [os_sep, os_sep, os_sep]
                  then 2 else 1)
               else 0);
            comps = foldl (normpath_step initial_slashes) [] (str_split path os_sep);
            path' = replicate initial_slashes os_sep @ str_join os_sep comps
        in if path' = [] then ''.'' else path')"

text \<open>
  The part of the operating system the tool reads: the current directory, whether a path
  exists, whether it is a directory, and the names in a directory. \<open>os.listdir\<close> may
  raise; its order is arbitrary.
\<close>

record os_env =
  os_getcwd :: string
  os_path_exists :: "string \<Rightarrow> bool"
  os_path_isdir :: "string \<Rightarrow> bool"
  os_listdir :: "string \<Rightarrow> py_error + string list"

definition abspath :: "os_env \<Rightarrow> string \<Rightarrow> string" where
  "abspath env path =
     normpath (if \<not> startswith path [os_sep] then path_join (os_getcwd env) path else path)"

text \<open>\<open>os.path.commonprefix\<close> of two lists and \<open>os.path.join\<close> of a list of arguments.\<close>

fun commonprefix :: "string list \<Rightarrow> string list \<Rightarrow> string list" where
  "commonprefix (x # xs) (y # ys) = (if x = y then x # commonprefix xs ys else [])"
| "commonprefix xs ys = []"

definition relpath :: "os_env \<Rightarrow> string \<Rightarrow> string \<Rightarrow> py_error + string" where
  "relpath env path start =
     (if path = [] then Inl ValueError
      else
        let start_list = filter (\<lambda>x. x \<noteq> []) (str_split (abspath env start) os_sep);
            path_list = filter (\<lambda>x. x \<noteq> []) (str_split (abspath env path) os_sep);
            i = length (commonprefix start_list path_list);
            rel_list = replicate (length start_list - i) ''..'' @ drop i path_list
        in case rel_list of
             [] \<Rightarrow> Inr ''.''
           | a # p \<Rightarrow> Inr (foldl path_join a p))"

subsection \<open>\<open>fnmatch.fnmatch\<close>\<close>

text \<open>
  On POSIX \<open>os.path.normcase\<close> is the identity, so \<open>fnmatch\<close> is \<open>fnmatchcase\<close>: the
  pattern is translated (\<open>fnmatch.translate\<close>, CPython 3.9 and later) and the whole name
  must match. A star matches any string, the separator included; a question mark any one
  character; a bracket expression \<open>[seq]\<close> or \<open>[!seq]\<close> one character; an unclosed
  bracket stands for itself.

  \<open>s.find(c, k)\<close>: the first index from \<open>k\<close> on where \<open>c\<close> stands.
\<close>

definition str_find :: "string \<Rightarrow> char \<Rightarrow> nat \<Rightarrow> nat option" where
  "str_find s c k =
     (if c \<in> set (drop k s) then Some (k + length (takeWhile (\<lambda>x. x \<noteq> c) (drop k s)))
      else None)"

text \<open>
  The index \<open>j\<close> of the bracket that closes the expression, in the pattern after the
  opening bracket: a leading \<open>!\<close> and then a leading \<open>]\<close> do not close it.
\<close>

definition bracket_end :: "string \<Rightarrow> nat option" where
  "bracket_end pat =
     (let j = (if startswith pat ''!'' then 1 else 0);
          j = (if startswith (drop j pat) '']'' then j + 1 else j)
      in str_find pat CHR '']'' j)"

text \<open>
  The chunks of \<open>stuff\<close> between the hyphens that make ranges: the search for the next
  hyphen starts at \<open>k\<close>, and two characters after the last one found; a hyphen in the last
  position is put back on the last chunk.
\<close>

function split_chunks :: "string \<Rightarrow> nat \<Rightarrow> string list" where
  "split_chunks s k =
     (case str_find s CHR ''-'' k of
        None \<Rightarrow> [s]
      | Some k' \<Rightarrow>
          (if drop (Suc k') s = [] then [take k' s @ ''-'']
           else take k' s # split_chunks (drop (Suc k') s) 2))"
  by pat_completeness auto
termination
  by (relation "measure (\<lambda>(s, k). length s)") (auto simp: str_find_def split: if_splits)

text \<open>
  Empty ranges are removed from the right: where the last character of a chunk is above
  the first of the next, both characters go and the chunks are glued.
\<close>

fun remove_empty_ranges :: "string list \<Rightarrow> string list" where
  "remove_empty_ranges [] = []"
| "remove_empty_ranges (c1 # rest) =
     (case remove_empty_ranges rest of
        [] \<Rightarrow> [c1]
      | c2 # cs \<Rightarrow> (if last c1 > hd c2 then (butlast c1 @ tl c2) # cs else c1 # c2 # cs))"

text \<open>
  The characters of the class \<open>[c0-c1-...]\<close> the chunks are joined to: every character
  of a chunk, and the range from the last character of a chunk to the first of the next.
\<close>

fun class_member :: "char \<Rightarrow> string list \<Rightarrow> bool" where
  "class_member c [] = False"
| "class_member c [a] = (c \<in> set a)"
| "class_member c (a # b # cs) =
     (c \<in> set a \<or> (last a \<le> c \<and> c \<le> hd b) \<or> class_member c (b # cs))"

definition bracket_matches :: "string \<Rightarrow> char \<Rightarrow> bool" where
  "bracket_matches stuff c =
     (let chunks = remove_empty_ranges (split_chunks stuff (if startswith stuff ''!'' then 2 else 1))
      in if chunks = [[]] then False
         else if chunks = [''!''] then True
         else (case chunks of
                 (x # c0) # cs \<Rightarrow>
                   (if x = CHR ''!'' then \<not> class_member c (c0 # cs) else class_member c chunks)
               | _ \<Rightarrow> class_member c chunks))"

function fnmatch :: "string \<Rightarrow> string \<Rightarrow> bool" where
  "fnmatch name [] = (name = [])"
| "fnmatch name (p # pat) =
     (if p = CHR ''*'' then
        (fnmatch name pat \<or> (case name of [] \<Rightarrow> False | c # cs \<Rightarrow> fnmatch cs (p # pat)))
      else if p = CHR ''?'' then
        (case name of [] \<Rightarrow> False | c # cs \<Rightarrow> fnmatch cs pat)
      else if p = CHR ''['' then
        (case bracket_end pat of
           None \<Rightarrow> (case name of [] \<Rightarrow> False | c # cs \<Rightarrow> c = p \<and> fnmatch cs pat)
         | Some j \<Rightarrow>
             (case name of
                [] \<Rightarrow> False
              | c # cs \<Rightarrow> bracket_matches (take j pat) c \<and> fnmatch cs (drop (Suc j) pat)))
      else (case name of [] \<Rightarrow> False | c # cs \<Rightarrow> c = p \<and> fnmatch cs pat))"
  by pat_completeness auto
termination
  by (relation "measure (\<lambda>(name, pat). length name + length pat)") auto

subsection \<open>Constants\<close>

definition MAX_FILES :: nat where
  "MAX_FILES = 1000"

definition TRUNCATED_MESSAGE :: string where
  "TRUNCATED_MESSAGE =
     ''There are more than '' @ str_of_nat MAX_FILES
     @ '' files in the repository. Use the LS tool (passing a specific path), Bash tool, and other tools to explore nested directories. The first ''
     @ str_of_nat MAX_FILES
     @ '' files and directories are included below:'' @ [CHR 0x0A, CHR 0x0A]"

subsection \<open>\<open>_should_skip\<close>\<close>

definition should_skip :: "string \<Rightarrow> string list \<Rightarrow> bool" where
  "should_skip path ignore_patterns =
     (let bname = basename (rstrip path os_sep) in
      if startswith bname ''.'' \<and> bname \<noteq> ''.'' then True
      else if bname = ''__pycache__''
              \<or> str_contains ''__pycache__/'' (str_replace path os_sep CHR ''/'') then True
      else if list_ex (\<lambda>pattern. fnmatch path pattern) ignore_patterns then True
      else False)"

subsection \<open>\<open>_list_directory\<close>\<close>

text \<open>
  The state of the loop: the entries collected, the queue of paths to visit and the
  counter of files.
\<close>

record scan_state =
  results :: "string list"
  queue :: "string list"
  file_count :: nat

text \<open>
  One turn of the \<open>while\<close> loop, for a queue that is not empty. An exception that
  \<open>os.listdir\<close> raises is caught when it is a \<open>PermissionError\<close> or a
  \<open>FileNotFoundError\<close>; any other leaves the loop and the call.
\<close>

definition loop_body :: "os_env \<Rightarrow> string \<Rightarrow> string list \<Rightarrow> scan_state \<Rightarrow> py_error + scan_state" where
  "loop_body env initial_path ignore_patterns st =
     (let path = hd (queue st); st = st\<lparr>queue := tl (queue st)\<rparr> in
      if should_skip path ignore_patterns then Inr st
      else
        case (if path \<noteq> initial_path then
                (case relpath env path initial_path of
                   Inl e \<Rightarrow> Inl e
                 | Inr r \<Rightarrow>
                     let rel_path = str_replace r os_sep CHR ''/'' in
                     if os_path_isdir env path then
                       Inr (st\<lparr>results := results st
                              @ [if \<not> endswith rel_path ''/'' then rel_path @ ''/'' else rel_path]\<rparr>)
                     else
                       Inr (st\<lparr>results := results st @ [rel_path],
                               file_count := file_count st + 1\<rparr>))
              else Inr st) of
          Inl e \<Rightarrow> Inl e
        | Inr st \<Rightarrow>
            if os_path_isdir env path then
              (case os_listdir env path of
                 Inr items \<Rightarrow>
                   let entries = sort (map (\<lambda>item. path_join path item) items) in
                   Inr (st\<lparr>queue := queue st
                          @ filter (\<lambda>item_path. \<not> should_skip item_path ignore_patterns) entries\<rparr>)
               | Inl e \<Rightarrow>
                   if e = PermissionError \<or> e = FileNotFoundError then Inr st else Inl e)
            else Inr st)"

partial_function (option) scan_loop ::
  "os_env \<Rightarrow> string \<Rightarrow> string list \<Rightarrow> scan_state \<Rightarrow> (py_error + scan_state) option" where
  "scan_loop env initial_path ignore_patterns st =
     (if queue st \<noteq> [] \<and> file_count st < MAX_FILES then
        (case loop_body env initial_path ignore_patterns st of
           Inl e \<Rightarrow> Some (Inl e)
         | Inr st' \<Rightarrow> scan_loop env initial_path ignore_patterns st')
      else Some (Inr st))"

declare scan_loop.simps [code]

text \<open>
  The result of \<open>_list_directory\<close>: \<open>None\<close> when the loop never ends, \<open>Some (Inl e)\<close>
  when it raises \<open>e\<close>, \<open>Some (Inr paths)\<close> when it returns the sorted \<open>paths\<close>.
\<close>

definition list_directory ::
  "os_env \<Rightarrow> string \<Rightarrow> string list \<Rightarrow> (py_error + string list) option" where
  "list_directory env initial_path ignore_patterns =
     (case scan_loop env initial_path ignore_patterns
             \<lparr>results = [], queue = [initial_path], file_count = 0\<rparr> of
        None \<Rightarrow> None
      | Some (Inl e) \<Rightarrow> Some (Inl e)
      | Some (Inr st) \<Rightarrow> Some (Inr (sort (results st))))"

subsection \<open>\<open>_create_file_tree\<close>\<close>

text \<open>
  A node is a dictionary with the keys \<open>name\<close>, \<open>path\<close> and \<open>type\<close>, and the key
  \<open>children\<close> when it is a directory.
\<close>

datatype node_type = File | Directory

datatype tree_node =
  Node (node_name: string) (node_path: string) (node_type: node_type)
       (node_children: "tree_node list option")

text \<open>The first node of a level with the given name (the inner search loop).\<close>

fun find_node :: "string \<Rightarrow> tree_node list \<Rightarrow> tree_node option" where
  "find_node part [] = None"
| "find_node part (node # level) =
     (if node_name node = part then Some node else find_node part level)"

text \<open>
  The level after the children of the first node with the given name are replaced: the
  tree is mutated in place, through the reference \<open>current_level\<close>.
\<close>

fun set_children :: "string \<Rightarrow> tree_node list \<Rightarrow> tree_node list \<Rightarrow> tree_node list" where
  "set_children part ch [] = []"
| "set_children part ch (node # level) =
     (if node_name node = part
      then Node (node_name node) (node_path node) (node_type node) (Some ch) # level
      else node # set_children part ch level)"

text \<open>
  The loop over the parts of one path, from index \<open>i\<close> on, at the level
  \<open>current_level\<close>; \<open>n\<close> is \<open>len(parts)\<close>. Below an existing node without children (a
  file) the remaining parts go to a fresh list that no node holds, so the level is left
  as it is.
\<close>

fun add_parts ::
  "string \<Rightarrow> nat \<Rightarrow> nat \<Rightarrow> string \<Rightarrow> string list \<Rightarrow> tree_node list \<Rightarrow> tree_node list" where
  "add_parts path n i current_path [] current_level = current_level"
| "add_parts path n i current_path (part # parts) current_level =
     (if part = [] then add_parts path n (Suc i) current_path parts current_level
      else
        let current_path = (if current_path \<noteq> [] then current_path @ ''/'' @ part else part);
            is_directory = (i < n - 1 \<or> endswith path ''/'')
        in case find_node part current_level of
             Some existing_node \<Rightarrow>
               (case node_children existing_node of
                  Some ch \<Rightarrow>
                    set_children part (add_parts path n (Suc i) current_path parts ch) current_level
                | None \<Rightarrow> current_level)
           | None \<Rightarrow>
               current_level @
                 [Node part current_path (if is_directory then Directory else File)
                    (if is_directory
                     then Some (add_parts path n (Suc i) current_path parts [])
                     else None)])"

definition create_file_tree :: "string list \<Rightarrow> tree_node list" where
  "create_file_tree sorted_paths =
     foldl (\<lambda>root path.
              let parts = str_split path CHR ''/'' in add_parts path (length parts) 0 [] parts root)
       [] sorted_paths"

subsection \<open>\<open>_print_tree\<close>\<close>

lemma size_node_children:
  assumes "node \<in> set tree" and "node_children node = Some ch"
  shows "size_list size ch < size_list size tree"
proof -
  have "size_list size ch < size node"
    using assms(2) by (cases node) simp
  moreover have "size node \<le> size_list size tree"
    using assms(1) by (simp add: size_list_estimation')
  ultimately show ?thesis
    by simp
qed

function print_tree :: "tree_node list \<Rightarrow> string \<Rightarrow> nat \<Rightarrow> string \<Rightarrow> string" where
  "print_tree tree root_path level prefix =
     (let root_path = (if level = 0 then rstrip root_path os_sep @ ''/'' else root_path);
          result = (if level = 0 then ''- '' @ root_path @ [CHR 0x0A] else []);
          prefix = (if level = 0 then ''  '' else prefix)
      in result @
         concat (map (\<lambda>node.
                   prefix @ ''- '' @ node_name node
                   @ (if node_type node = Directory then ''/'' else [])
                   @ [CHR 0x0A]
                   @ (case node_children node of
                        None \<Rightarrow> []
                      | Some ch \<Rightarrow>
                          if ch \<noteq> [] then print_tree ch root_path (level + 1) (prefix @ ''  '')
                          else []))
                 tree))"
  by pat_completeness auto
termination
  by (relation "measure (\<lambda>(tree, root_path, level, prefix). size_list size tree)")
     (auto intro: size_node_children)

declare print_tree.simps [simp del]

subsection \<open>\<open>forward\<close>\<close>

definition forward :: "os_env \<Rightarrow> string \<Rightarrow> string list option \<Rightarrow> (py_error + string) option" where
  "forward env path ignore =
     (let path = (if \<not> isabs path then abspath env path else path) in
      if \<not> os_path_exists env path then
        Some (Inr (''Error: Path '' @ [CHR 0x27] @ path @ [CHR 0x27] @ '' does not exist''))
      else if \<not> os_path_isdir env path then
        Some (Inr (''Error: Path '' @ [CHR 0x27] @ path @ [CHR 0x27] @ '' is not a directory''))
      else
        case list_directory env path (case ignore of None \<Rightarrow> [] | Some pats \<Rightarrow> pats) of
          None \<Rightarrow> None
        | Some (Inl e) \<Rightarrow> Some (Inl e)
        | Some (Inr all_paths) \<Rightarrow>
            let tree = create_file_tree all_paths;
                truncated = (length all_paths \<ge> MAX_FILES);
                prefix = (if truncated then TRUNCATED_MESSAGE else []);
                tree_output = print_tree tree path 0 []
            in Some (Inr (prefix @ tree_output)))"

subsection \<open>Example directory trees\<close>

text \<open>
  An operating system over a fixed tree: the directories with their listings, and the
  files. A path that is not in the tree does not exist; listing a file raises
  \<open>NotADirectoryError\<close>, listing a missing path \<open>FileNotFoundError\<close>.
\<close>

definition tree_env :: "(string \<times> string list) list \<Rightarrow> string list \<Rightarrow> os_env" where
  "tree_env dirs files =
     \<lparr>os_getcwd = ''/'',
      os_path_exists = (\<lambda>p. map_of dirs p \<noteq> None \<or> p \<in> set files),
      os_path_isdir = (\<lambda>p. map_of dirs p \<noteq> None),
      os_listdir = (\<lambda>p. case map_of dirs p of
                          Some items \<Rightarrow> Inr items
                        | None \<Rightarrow> if p \<in> set files then Inl NotADirectoryError
                                  else Inl FileNotFoundError)\<rparr>"

text \<open>A project with a directory whose name ends in \<open>__pycache__\<close>.\<close>

definition pycache_env :: os_env where
  "pycache_env =
     tree_env [(''/proj'', [''foo__pycache__'']), (''/proj/foo__pycache__'', [''x.py''])]
       [''/proj/foo__pycache__/x.py'']"

text \<open>Names that differ in their number: the character \<open>c\<close> and four decimal digits.\<close>

definition numbered :: "char \<Rightarrow> nat \<Rightarrow> string" where
  "numbered c n =
     [c, digit_char (n div 10 div 10 div 10 mod 10), digit_char (n div 10 div 10 mod 10),
      digit_char (n div 10 mod 10), digit_char (n mod 10)]"

text \<open>A directory with 1200 files and nothing else.\<close>

definition flat_files_env :: os_env where
  "flat_files_env =
     tree_env [(''/data'', map (numbered CHR ''f'') [0..<1200])]
       (map (\<lambda>n. path_join ''/data'' (numbered CHR ''f'' n)) [0..<1200])"

text \<open>A directory with 1000 empty subdirectories and no file.\<close>

definition many_dirs_env :: os_env where
  "many_dirs_env =
     tree_env ((''/data'', map (numbered CHR ''d'') [0..<1000])
               # map (\<lambda>n. (path_join ''/data'' (numbered CHR ''d'' n), [])) [0..<1000])
       []"

text \<open>
  A project with a file, a directory and a file in the directory, as the operating system
  answers when the project is named with two separators at its end.
\<close>

definition small_tree_env :: os_env where
  "small_tree_env =
     tree_env [(''/proj//'', [''b'', ''a.txt'']), (''/proj//b'', [''c.txt''])]
       [''/proj//a.txt'', ''/proj//b/c.txt'']"

text \<open>
  A project with a hidden directory, a hidden file, and a hidden directory below a
  directory that is not hidden.
\<close>

definition hidden_env :: os_env where
  "hidden_env =
     tree_env [(''/proj'', [''.git'', ''README.md'', ''src'', ''.env'']),
               (''/proj/.git'', [''config'']),
               (''/proj/src'', [''.cache'', ''main.py'']),
               (''/proj/src/.cache'', [''x''])]
       [''/proj/README.md'', ''/proj/.env'', ''/proj/.git/config'', ''/proj/src/main.py'',
        ''/proj/src/.cache/x'']"

text \<open>A project with a log file and a Python file.\<close>

definition logs_env :: os_env where
  "logs_env = tree_env [(''/proj'', [''app.log'', ''app.py''])] [''/proj/app.log'', ''/proj/app.py'']"

text \<open>
  A project in which listing the directory \<open>locked\<close> raises the exception \<open>e\<close>, although
  the directory is there.
\<close>

definition faulty_env :: "py_error \<Rightarrow> os_env" where
  "faulty_env e =
     (let env = tree_env [(''/proj'', [''z.txt'', ''ok'', ''locked'']),
                          (''/proj/locked'', [''secret'']),
                          (''/proj/ok'', [''f.txt''])]
                  [''/proj/z.txt'', ''/proj/ok/f.txt'', ''/proj/locked/secret'']
      in env\<lparr>os_listdir := (\<lambda>p. if p = ''/proj/locked'' then Inl e else os_listdir env p)\<rparr>)"

subsection \<open>Notions for the statements\<close>

text \<open>
  A name as \<open>os.listdir\<close> returns it on a real file system: not empty, without a
  separator, and neither of the two special entries.
\<close>

definition valid_name :: "string \<Rightarrow> bool" where
  "valid_name x \<longleftrightarrow> x \<noteq> [] \<and> os_sep \<notin> set x \<and> x \<noteq> ''.'' \<and> x \<noteq> ''..''"

text \<open>The path reached from \<open>root\<close> by joining the names \<open>ns\<close> one after the other.\<close>

definition chain :: "string \<Rightarrow> string list \<Rightarrow> string" where
  "chain root ns = foldl path_join root ns"

text \<open>The number of leading slashes \<open>normpath\<close> keeps, and the components it keeps.\<close>

definition initial_slashes :: "string \<Rightarrow> nat" where
  "initial_slashes path =
     (if startswith path [os_sep] then
        (if startswith path [os_sep, os_sep] \<and> \<not> startswith path [os_sep, os_sep, os_sep]
         then 2 else 1)
      else 0)"

definition norm_comps :: "nat \<Rightarrow> string \<Rightarrow> string list" where
  "norm_comps k path = foldl (normpath_step k) [] (str_split path os_sep)"

text \<open>
  The entry the loop records for a path that is not the initial one, the paths it puts
  on the queue after a visit, and the exceptions of \<open>os.listdir\<close> it does not catch.
\<close>

definition rel_entry :: "os_env \<Rightarrow> string \<Rightarrow> string \<Rightarrow> string" where
  "rel_entry env root p =
     (case relpath env p root of
        Inl e \<Rightarrow> []
      | Inr r \<Rightarrow>
          let rel_path = str_replace r os_sep CHR ''/'' in
          if os_path_isdir env p
          then (if \<not> endswith rel_path ''/'' then rel_path @ ''/'' else rel_path)
          else rel_path)"

definition enqueued :: "os_env \<Rightarrow> string list \<Rightarrow> string \<Rightarrow> string list" where
  "enqueued env ign p =
     (if os_path_isdir env p then
        (case os_listdir env p of
           Inr items \<Rightarrow> filter (\<lambda>q. \<not> should_skip q ign) (sort (map (path_join p) items))
         | Inl e \<Rightarrow> [])
      else [])"

definition listing_raises :: "os_env \<Rightarrow> string \<Rightarrow> py_error \<Rightarrow> bool" where
  "listing_raises env p e \<longleftrightarrow>
     os_path_isdir env p \<and> os_listdir env p = Inl e \<and> e \<noteq> PermissionError \<and> e \<noteq> FileNotFoundError"

text \<open>
  The lines of a list of nodes below the root line: \<open>_print_tree\<close> at a level above 0,
  by recursion on the nodes.
\<close>

fun render_node :: "string \<Rightarrow> tree_node \<Rightarrow> string"
  and render_nodes :: "string \<Rightarrow> tree_node list \<Rightarrow> string" where
  "render_node prefix (Node name path type ch) =
     prefix @ ''- '' @ name @ (if type = Directory then ''/'' else []) @ [CHR 0x0A]
     @ (case ch of None \<Rightarrow> [] | Some ns \<Rightarrow> render_nodes (prefix @ ''  '') ns)"
| "render_nodes prefix [] = []"
| "render_nodes prefix (n # ns) = render_node prefix n @ render_nodes prefix ns"

text \<open>
  The names \<open>ns\<close> lead from the path \<open>p\<close> down the tree, by listings of directories,
  through paths that \<open>_should_skip\<close> lets pass: the way by which the loop reaches a path.
\<close>

fun walk :: "os_env \<Rightarrow> string list \<Rightarrow> string \<Rightarrow> string list \<Rightarrow> bool" where
  "walk env ign p [] = (\<not> should_skip p ign)"
| "walk env ign p (x # ns) =
     (\<not> should_skip p ign \<and> os_path_isdir env p
      \<and> (case os_listdir env p of Inl e \<Rightarrow> False | Inr items \<Rightarrow> x \<in> set items)
      \<and> walk env ign (path_join p x) ns)"

text \<open>The first test of \<open>_should_skip\<close>: the base name begins with a dot and is not the dot.\<close>

definition is_hidden :: "string \<Rightarrow> bool" where
  "is_hidden p = (let b = basename (rstrip p os_sep) in startswith b ''.'' \<and> b \<noteq> ''.'')"

text \<open>
  The invariant of the loop: every path on the queue and every entry collected comes from
  a walk from the root.
\<close>

definition traced :: "os_env \<Rightarrow> string \<Rightarrow> string list \<Rightarrow> scan_state \<Rightarrow> bool" where
  "traced env root ign s \<longleftrightarrow>
     (\<forall>p\<in>set (queue s). \<exists>ns. p = chain root ns \<and> (ns = [] \<or> walk env ign root ns))
     \<and> (\<forall>e\<in>set (results s). \<exists>ns. ns \<noteq> [] \<and> walk env ign root ns
                                    \<and> e = rel_entry env root (chain root ns))"


text \<open>\<open>os.listdir\<close> returns names of a real file system only.\<close>

definition proper_listings :: "os_env \<Rightarrow> bool" where
  "proper_listings env \<longleftrightarrow> (\<forall>p items. os_listdir env p = Inr items \<longrightarrow> (\<forall>x\<in>set items. valid_name x))"

text \<open>
  The second invariant of the loop: every path a walk from the root leads to has its
  entry collected, or the walk passes through a path that is still on the queue.
\<close>

definition covered :: "os_env \<Rightarrow> string \<Rightarrow> string list \<Rightarrow> scan_state \<Rightarrow> bool" where
  "covered env root ign s \<longleftrightarrow>
     (\<forall>ns. ns \<noteq> [] \<and> walk env ign root ns \<longrightarrow>
        rel_entry env root (chain root ns) \<in> set (results s)
        \<or> (\<exists>k\<le>length ns. chain root (take k ns) \<in> set (queue s)))"

section \<open>Properties\<close>

subsection \<open>Strings and paths\<close>

lemma startswith_append [simp]: "startswith (p @ s) p"
  by (induction p) simp_all

lemma str_contains_prefix: "str_contains sub (sub @ post)"
proof (cases "sub @ post")
  case Nil
  then show ?thesis by simp
next
  case (Cons c cs)
  have "startswith (sub @ post) sub"
    by simp
  with Cons show ?thesis
    by simp
qed

lemma str_contains_append: "str_contains sub (pre @ sub @ post)"
  by (induction pre) (simp_all add: str_contains_prefix)

lemma abspath_listdir_update [simp]: "abspath (env\<lparr>os_listdir := f\<rparr>) p = abspath env p"
  by (simp add: abspath_def)

subsection \<open>Joined paths and their relative form\<close>

lemma startswith_single: "startswith s [c] \<longleftrightarrow> (\<exists>t. s = c # t)"
  by (cases s) auto

lemma endswith_single: "endswith s [c] \<longleftrightarrow> (\<exists>t. s = t @ [c])"
  by (cases s rule: rev_cases) (auto simp: endswith_def)

lemma isabs_iff: "isabs s \<longleftrightarrow> (\<exists>t. s = os_sep # t)"
  by (simp add: isabs_def startswith_single)

lemma isabs_path_join: "isabs a \<Longrightarrow> isabs (path_join a b)"
  by (auto simp: isabs_iff path_join_def startswith_single)

lemma isabs_chain: "isabs root \<Longrightarrow> isabs (chain root ns)"
  unfolding chain_def by (induction ns arbitrary: root) (simp_all add: isabs_path_join)

lemma path_join_valid:
  "valid_name x \<Longrightarrow> path_join p x = (if p = [] \<or> endswith p [os_sep] then p @ x else p @ os_sep # x)"
  by (cases x) (auto simp: path_join_def valid_name_def)

lemma str_split_not_Nil [simp]: "str_split s c \<noteq> []"
  by (induction s) (auto split: list.splits)

lemma str_split_append_sep: "str_split (a @ c # b) c = str_split a c @ str_split b c"
  by (induction a) (auto split: list.splits)

lemma str_split_no_sep: "c \<notin> set x \<Longrightarrow> str_split x c = [x]"
  by (induction x) auto

lemma str_split_append_no_sep:
  "c \<notin> set x \<Longrightarrow> str_split (a @ x) c = butlast (str_split a c) @ [last (str_split a c) @ x]"
  by (induction a) (auto simp: str_split_no_sep split: list.splits)

lemma str_split_parts_no_sep: "w \<in> set (str_split s c) \<Longrightarrow> c \<notin> set w"
  by (induction s arbitrary: w) (auto split: list.splits if_splits)

lemma normpath_isabs:
  "isabs p \<Longrightarrow>
   normpath p = replicate (initial_slashes p) os_sep @ str_join os_sep (norm_comps (initial_slashes p) p)"
  by (auto simp: normpath_def initial_slashes_def norm_comps_def Let_def isabs_def)

lemma initial_slashes_pos: "isabs p \<Longrightarrow> 0 < initial_slashes p"
  by (simp add: initial_slashes_def isabs_def)

lemma initial_slashes_path_join:
  assumes "isabs p" "valid_name x"
  shows "initial_slashes (path_join p x) = initial_slashes p"
proof -
  obtain c cs where x: "x = c # cs" "c \<noteq> os_sep"
    using assms(2) by (cases x) (auto simp: valid_name_def)
  obtain t where p: "p = os_sep # t"
    using assms(1) by (auto simp: isabs_iff)
  show ?thesis
  proof (cases t)
    case Nil
    with p x show ?thesis
      by (simp add: initial_slashes_def path_join_def endswith_def)
  next
    case (Cons a t')
    note t = this
    show ?thesis
    proof (cases t')
      case Nil
      with p x t show ?thesis
        by (simp add: initial_slashes_def path_join_def endswith_def)
    next
      case (Cons b t'')
      with p x t show ?thesis
        by (simp add: initial_slashes_def path_join_def endswith_def)
    qed
  qed
qed

lemma normpath_step_valid: "valid_name x \<Longrightarrow> normpath_step k cs x = cs @ [x]"
  by (simp add: normpath_step_def valid_name_def)

lemma normpath_step_empty: "normpath_step k cs [] = cs"
  by (simp add: normpath_step_def)

lemma norm_comps_path_join:
  assumes "valid_name x"
  shows "norm_comps k (path_join p x) = norm_comps k p @ [x]"
proof -
  have nosep: "os_sep \<notin> set x"
    using assms by (simp add: valid_name_def)
  show ?thesis
  proof (cases "p = []")
    case True
    then show ?thesis
      using assms nosep
      by (simp add: path_join_valid norm_comps_def str_split_no_sep normpath_step_valid normpath_step_empty)
  next
    case False
    show ?thesis
    proof (cases "endswith p [os_sep]")
      case True
      then obtain t where p: "p = t @ [os_sep]"
        by (auto simp: endswith_single)
      have "str_split p os_sep = str_split t os_sep @ [[]]"
        using str_split_append_sep [of t os_sep "[]"] by (simp add: p)
      moreover have "str_split (p @ x) os_sep = str_split t os_sep @ [x]"
        using str_split_append_sep [of t os_sep x] nosep by (simp add: p str_split_no_sep)
      ultimately show ?thesis
        using assms True
        by (simp add: path_join_valid norm_comps_def normpath_step_valid normpath_step_empty)
    next
      case False
      have "str_split (p @ os_sep # x) os_sep = str_split p os_sep @ [x]"
        using nosep by (simp add: str_split_append_sep str_split_no_sep)
      then show ?thesis
        using assms False \<open>p \<noteq> []\<close>
        by (simp add: path_join_valid norm_comps_def normpath_step_valid)
    qed
  qed
qed

lemma chain_snoc: "chain root (ns @ [x]) = path_join (chain root ns) x"
  by (simp add: chain_def)

lemma norm_comps_chain:
  "\<forall>n\<in>set ns. valid_name n \<Longrightarrow> norm_comps k (chain root ns) = norm_comps k root @ ns"
  by (induction ns rule: rev_induct) (simp_all add: chain_snoc norm_comps_path_join chain_def)

lemma initial_slashes_chain:
  "isabs root \<Longrightarrow> \<forall>n\<in>set ns. valid_name n \<Longrightarrow> initial_slashes (chain root ns) = initial_slashes root"
  by (induction ns rule: rev_induct)
     (simp_all add: chain_snoc initial_slashes_path_join isabs_chain, simp add: chain_def)

lemma str_join_Cons: "str_join c (a # ns) = a @ concat (map ((#) c) ns)"
  by (induction ns arbitrary: a) simp_all

lemma str_split_str_join:
  "cs \<noteq> [] \<Longrightarrow> \<forall>w\<in>set cs. c \<notin> set w \<Longrightarrow> str_split (str_join c cs) c = cs"
proof (induction c cs rule: str_join.induct)
  case (3 c p q ps)
  then show ?case
    by (simp add: str_split_append_sep str_split_no_sep)
qed (simp_all add: str_split_no_sep)

lemma filter_split_replicate:
  "filter (\<lambda>x. x \<noteq> []) (str_split (replicate k c @ s) c) = filter (\<lambda>x. x \<noteq> []) (str_split s c)"
  by (induction k) simp_all

lemma filter_split_join:
  assumes "\<forall>w\<in>set cs. w \<noteq> [] \<and> c \<notin> set w"
  shows "filter (\<lambda>x. x \<noteq> []) (str_split (replicate k c @ str_join c cs) c) = cs"
proof (cases "cs = []")
  case True
  then show ?thesis
    using filter_split_replicate [of k c "[]"] by simp
next
  case False
  with assms have "str_split (str_join c cs) c = cs"
    by (simp add: str_split_str_join)
  with assms show ?thesis
    by (simp add: filter_split_replicate filter_id_conv)
qed

lemma normpath_step_parts:
  assumes "\<forall>w\<in>set acc. w \<noteq> [] \<and> os_sep \<notin> set w" "os_sep \<notin> set x"
  shows "\<forall>w\<in>set (normpath_step k acc x). w \<noteq> [] \<and> os_sep \<notin> set w"
proof -
  have "set (butlast acc) \<subseteq> set acc"
    by (auto dest: in_set_butlastD)
  then show ?thesis
    using assms unfolding normpath_step_def by (simp split: if_splits) blast
qed

lemma foldl_normpath_step_parts:
  "\<forall>w\<in>set acc. w \<noteq> [] \<and> os_sep \<notin> set w \<Longrightarrow> \<forall>x\<in>set xs. os_sep \<notin> set x \<Longrightarrow>
   \<forall>w\<in>set (foldl (normpath_step k) acc xs). w \<noteq> [] \<and> os_sep \<notin> set w"
proof (induction xs arbitrary: acc)
  case (Cons x xs)
  have step: "\<forall>w\<in>set (normpath_step k acc x). w \<noteq> [] \<and> os_sep \<notin> set w"
    using Cons.prems by (intro normpath_step_parts) simp_all
  have rest: "\<forall>x\<in>set xs. os_sep \<notin> set x"
    using Cons.prems(2) by simp
  show ?case
    using Cons.IH [OF step rest] by simp
qed simp

lemma norm_comps_parts: "\<forall>w\<in>set (norm_comps k p). w \<noteq> [] \<and> os_sep \<notin> set w"
proof -
  have "\<forall>x\<in>set (str_split p os_sep). os_sep \<notin> set x"
    using str_split_parts_no_sep by blast
  then show ?thesis
    unfolding norm_comps_def by (intro foldl_normpath_step_parts) simp_all
qed

lemma commonprefix_append: "commonprefix cs (cs @ ns) = cs"
  by (induction cs) simp_all

lemma foldl_path_join:
  "a \<noteq> [] \<Longrightarrow> \<not> endswith a [os_sep] \<Longrightarrow> \<forall>n\<in>set ns. valid_name n \<Longrightarrow>
   foldl path_join a ns = a @ concat (map ((#) os_sep) ns)"
proof (induction ns arbitrary: a)
  case (Cons n ns)
  have "path_join a n = a @ os_sep # n"
    using Cons.prems by (simp add: path_join_valid)
  moreover have "\<not> endswith (a @ os_sep # n) [os_sep]"
    using Cons.prems(3) by (cases n rule: rev_cases) (auto simp: endswith_def valid_name_def)
  ultimately show ?case
    using Cons by simp
qed simp

lemma valid_name_not_endswith: "valid_name n \<Longrightarrow> \<not> endswith n [os_sep]"
  by (cases n rule: rev_cases) (auto simp: endswith_def valid_name_def)

lemma relpath_chain:
  assumes "isabs root" "\<forall>n\<in>set ns. valid_name n" "ns \<noteq> []"
  shows "relpath env (chain root ns) root = Inr (str_join os_sep ns)"
proof -
  let ?k = "initial_slashes root"
  let ?cs = "norm_comps ?k root"
  have abs: "isabs (chain root ns)"
    using assms(1) by (rule isabs_chain)
  then have ne: "chain root ns \<noteq> []"
    by (auto simp: isabs_iff)
  have start: "abspath env root = replicate ?k os_sep @ str_join os_sep ?cs"
    using assms(1) by (simp add: abspath_def normpath_isabs isabs_def)
  have path: "abspath env (chain root ns) = replicate ?k os_sep @ str_join os_sep (?cs @ ns)"
    using abs assms
    by (simp add: abspath_def normpath_isabs initial_slashes_chain norm_comps_chain)
       (simp add: isabs_def)
  have parts: "\<forall>w\<in>set (?cs @ ns). w \<noteq> [] \<and> os_sep \<notin> set w"
    using norm_comps_parts [of ?k root] assms(2) by (auto simp: valid_name_def)
  have l1: "filter (\<lambda>x. x \<noteq> []) (str_split (abspath env root) os_sep) = ?cs"
    unfolding start using norm_comps_parts [of ?k root] by (intro filter_split_join) simp
  have l2: "filter (\<lambda>x. x \<noteq> []) (str_split (abspath env (chain root ns)) os_sep) = ?cs @ ns"
    unfolding path using parts by (rule filter_split_join)
  obtain n ns' where ns: "ns = n # ns'"
    using assms(3) by (cases ns) auto
  have vn: "valid_name n" and vns: "\<forall>x\<in>set ns'. valid_name x"
    using assms(2) by (simp_all add: ns)
  have "n \<noteq> []"
    using vn by (simp add: valid_name_def)
  then have "foldl path_join n ns' = n @ concat (map ((#) os_sep) ns')"
    using vn vns by (intro foldl_path_join valid_name_not_endswith)
  then have "foldl path_join n ns' = str_join os_sep ns"
    by (simp add: ns str_join_Cons)
  moreover have "replicate (length ?cs - length (commonprefix ?cs (?cs @ ns))) ''..''
                 @ drop (length (commonprefix ?cs (?cs @ ns))) (?cs @ ns) = n # ns'"
    by (simp add: commonprefix_append ns)
  ultimately show ?thesis
    using ne unfolding relpath_def l1 l2 Let_def by simp
qed

subsection \<open>The loop\<close>

lemma scan_loop_rule:
  assumes run: "scan_loop env root ign st = Some r"
    and init: "I st"
    and step: "\<And>s s'. I s \<Longrightarrow> queue s \<noteq> [] \<Longrightarrow> file_count s < MAX_FILES \<Longrightarrow>
                 loop_body env root ign s = Inr s' \<Longrightarrow> I s'"
  shows "(\<forall>st'. r = Inr st' \<longrightarrow> I st' \<and> (queue st' = [] \<or> MAX_FILES \<le> file_count st'))
       \<and> (\<forall>e. r = Inl e \<longrightarrow> (\<exists>s. I s \<and> queue s \<noteq> [] \<and> file_count s < MAX_FILES
                                   \<and> loop_body env root ign s = Inl e))"
proof -
  define Q where "Q r \<longleftrightarrow>
     (\<forall>st'. r = Inr st' \<longrightarrow> I st' \<and> (queue st' = [] \<or> MAX_FILES \<le> file_count st'))
       \<and> (\<forall>e. r = Inl e \<longrightarrow> (\<exists>s. I s \<and> queue s \<noteq> [] \<and> file_count s < MAX_FILES
                                   \<and> loop_body env root ign s = Inl e))" for r
  define P where "P env' root' ign' s y \<longleftrightarrow>
     (env' = env \<longrightarrow> root' = root \<longrightarrow> ign' = ign \<longrightarrow> I s \<longrightarrow> Q y)" for env' root' ign' s y
  have "P env root ign st r"
  proof (rule scan_loop.raw_induct [where P = P, OF _ run])
    fix f env' root' ign' s y
    assume IH: "\<And>a b c d y. f a b c d = Some y \<Longrightarrow> P a b c d y"
      and unf: "(if queue s \<noteq> [] \<and> file_count s < MAX_FILES
                 then case loop_body env' root' ign' s of
                        Inl e \<Rightarrow> Some (Inl e)
                      | Inr st' \<Rightarrow> f env' root' ign' st'
                 else Some (Inr s)) = Some y"
    show "P env' root' ign' s y"
      unfolding P_def
    proof (intro impI)
      assume eqs: "env' = env" "root' = root" "ign' = ign" and Is: "I s"
      show "Q y"
      proof (cases "queue s \<noteq> [] \<and> file_count s < MAX_FILES")
        case False
        with unf have "y = Inr s" by auto
        with False Is show ?thesis by (auto simp: Q_def)
      next
        case True
        show ?thesis
        proof (cases "loop_body env root ign s")
          case (Inl e)
          with True unf eqs have "y = Inl e" by auto
          with True Is Inl show ?thesis by (auto simp: Q_def)
        next
          case (Inr s')
          with True unf eqs have "f env root ign s' = Some y"
            by auto
          moreover have "I s'"
            using step [OF Is _ _ Inr] True by simp
          ultimately show ?thesis
            using IH [of env root ign s' y] by (simp add: P_def)
        qed
      qed
    qed
  qed
  with init show ?thesis by (simp add: P_def Q_def)
qed

lemma relpath_Inr: "p \<noteq> [] \<Longrightarrow> \<exists>r. relpath env p root = Inr r"
  by (simp add: relpath_def Let_def split: list.splits)

lemma loop_body_skip:
  "queue s = p # rest \<Longrightarrow> should_skip p ign \<Longrightarrow> loop_body env root ign s = Inr (s\<lparr>queue := rest\<rparr>)"
  by (simp add: loop_body_def)

lemma loop_body_visit:
  assumes "queue s = p # rest" "\<not> should_skip p ign" "p \<noteq> []" "\<forall>e. \<not> listing_raises env p e"
  shows "loop_body env root ign s =
           Inr \<lparr>results = results s @ (if p \<noteq> root then [rel_entry env root p] else []),
                queue = rest @ enqueued env ign p,
                file_count = file_count s + (if p \<noteq> root \<and> \<not> os_path_isdir env p then 1 else 0)\<rparr>"
proof -
  obtain r where r: "relpath env p root = Inr r"
    using relpath_Inr [OF assms(3)] by blast
  show ?thesis
    using assms(1,2,4) r
    by (cases "os_listdir env p")
       (auto simp: loop_body_def rel_entry_def enqueued_def listing_raises_def Let_def)
qed

lemma loop_body_raise:
  assumes "queue s = p # rest" "\<not> should_skip p ign" "p \<noteq> []" "listing_raises env p e"
  shows "loop_body env root ign s = Inl e"
proof -
  obtain r where r: "relpath env p root = Inr r"
    using relpath_Inr [OF assms(3)] by blast
  show ?thesis
    using assms(1,2,4) r
    by (auto simp: loop_body_def listing_raises_def Let_def)
qed

lemma scan_loop_done:
  "queue s = [] \<or> MAX_FILES \<le> file_count s \<Longrightarrow> scan_loop env root ign s = Some (Inr s)"
  by (subst scan_loop.simps) auto

lemma scan_loop_step:
  "queue s \<noteq> [] \<Longrightarrow> file_count s < MAX_FILES \<Longrightarrow> loop_body env root ign s = Inr s' \<Longrightarrow>
   scan_loop env root ign s = scan_loop env root ign s'"
  by (subst scan_loop.simps) simp

lemma scan_loop_raise:
  "queue s \<noteq> [] \<Longrightarrow> file_count s < MAX_FILES \<Longrightarrow> loop_body env root ign s = Inl e \<Longrightarrow>
   scan_loop env root ign s = Some (Inl e)"
  by (subst scan_loop.simps) simp

lemma scan_files:
  assumes "\<forall>q\<in>set qs. q \<noteq> [] \<and> q \<noteq> root \<and> \<not> should_skip q ign \<and> \<not> os_path_isdir env q"
    and "file_count s \<le> MAX_FILES" and "queue s = qs"
  shows "scan_loop env root ign s =
           Some (Inr \<lparr>results = results s @ map (rel_entry env root) (take (MAX_FILES - file_count s) qs),
                      queue = drop (MAX_FILES - file_count s) qs,
                      file_count = file_count s + min (length qs) (MAX_FILES - file_count s)\<rparr>)"
  using assms
proof (induction qs arbitrary: s)
  case Nil
  then show ?case
    by (simp add: scan_loop_done)
next
  case (Cons q qs)
  show ?case
  proof (cases "file_count s < MAX_FILES")
    case False
    with Cons.prems have "MAX_FILES - file_count s = 0"
      by simp
    with False Cons.prems(3) show ?thesis
      by (simp add: scan_loop_done)
  next
    case True
    let ?s' = "\<lparr>results = results s @ [rel_entry env root q], queue = qs,
                file_count = file_count s + 1\<rparr>"
    have q: "q \<noteq> []" "q \<noteq> root" "\<not> should_skip q ign" "\<not> os_path_isdir env q"
      using Cons.prems(1) by simp_all
    have "loop_body env root ign s = Inr ?s'"
      using loop_body_visit [OF Cons.prems(3) q(3) q(1), of env root] q
      by (simp add: listing_raises_def enqueued_def)
    then have "scan_loop env root ign s = scan_loop env root ign ?s'"
      using True Cons.prems(3) by (intro scan_loop_step) simp_all
    moreover have "\<forall>q\<in>set qs. q \<noteq> [] \<and> q \<noteq> root \<and> \<not> should_skip q ign \<and> \<not> os_path_isdir env q"
      using Cons.prems(1) by simp
    then have "scan_loop env root ign ?s' =
           Some (Inr \<lparr>results = results ?s' @ map (rel_entry env root) (take (MAX_FILES - file_count ?s') qs),
                      queue = drop (MAX_FILES - file_count ?s') qs,
                      file_count = file_count ?s' + min (length qs) (MAX_FILES - file_count ?s')\<rparr>)"
      using True by (intro Cons.IH) simp_all
    moreover have "MAX_FILES - file_count s = Suc (MAX_FILES - (file_count s + 1))"
      using True by simp
    ultimately show ?thesis
      by (simp del: take_Suc_Cons add: take_Suc_Cons [symmetric]) (simp add: min_def)
  qed
qed

lemma scan_empty_dirs:
  assumes "\<forall>q\<in>set qs. q \<noteq> [] \<and> q \<noteq> root \<and> \<not> should_skip q ign \<and> os_path_isdir env q
                        \<and> os_listdir env q = Inr []"
    and "file_count s < MAX_FILES" and "queue s = qs"
  shows "scan_loop env root ign s =
           Some (Inr \<lparr>results = results s @ map (rel_entry env root) qs, queue = [],
                      file_count = file_count s\<rparr>)"
  using assms
proof (induction qs arbitrary: s)
  case Nil
  then show ?case
    by (simp add: scan_loop_done)
next
  case (Cons q qs)
  let ?s' = "\<lparr>results = results s @ [rel_entry env root q], queue = qs, file_count = file_count s\<rparr>"
  have q: "q \<noteq> []" "q \<noteq> root" "\<not> should_skip q ign" "os_path_isdir env q" "os_listdir env q = Inr []"
    using Cons.prems(1) by simp_all
  have "loop_body env root ign s = Inr ?s'"
    using loop_body_visit [OF Cons.prems(3) q(3) q(1), of env root] q
    by (simp add: listing_raises_def enqueued_def)
  then have "scan_loop env root ign s = scan_loop env root ign ?s'"
    using Cons.prems(2,3) by (intro scan_loop_step) simp_all
  moreover have "\<forall>q\<in>set qs. q \<noteq> [] \<and> q \<noteq> root \<and> \<not> should_skip q ign \<and> os_path_isdir env q
                        \<and> os_listdir env q = Inr []"
    using Cons.prems(1) by simp
  then have "scan_loop env root ign ?s' =
           Some (Inr \<lparr>results = results ?s' @ map (rel_entry env root) qs, queue = [],
                      file_count = file_count ?s'\<rparr>)"
    using Cons.prems(2) by (intro Cons.IH) simp_all
  ultimately show ?case
    by simp
qed

subsection \<open>The children of a directory\<close>

lemma str_replace_sep [simp]: "str_replace s os_sep CHR ''/'' = s"
  by (simp add: str_replace_def os_sep_def map_idI)

lemma rstrip_no_trailing: "s \<noteq> [] \<Longrightarrow> last s \<noteq> c \<Longrightarrow> rstrip s c = s"
  by (cases s rule: rev_cases) (simp_all add: rstrip_def)

lemma takeWhile_rev_no_sep: "os_sep \<notin> set x \<Longrightarrow> takeWhile (\<lambda>c. c \<noteq> os_sep) (rev x) = rev x"
  by (auto simp: takeWhile_eq_all_conv)

lemma basename_no_sep: "os_sep \<notin> set x \<Longrightarrow> basename x = x"
  by (simp add: basename_def takeWhile_rev_no_sep)

lemma basename_append: "os_sep \<notin> set x \<Longrightarrow> basename (p @ os_sep # x) = x"
proof -
  assume "os_sep \<notin> set x"
  then have "c \<in> set (rev x) \<Longrightarrow> c \<noteq> os_sep" for c
    by auto
  then have "takeWhile (\<lambda>c. c \<noteq> os_sep) (rev x @ os_sep # rev p)
             = rev x @ takeWhile (\<lambda>c. c \<noteq> os_sep) (os_sep # rev p)"
    by (rule takeWhile_append2)
  then show ?thesis
    by (simp add: basename_def)
qed

lemma basename_rstrip_path_join:
  assumes "valid_name x"
  shows "basename (rstrip (path_join p x) os_sep) = x"
proof -
  have x: "x \<noteq> []" "os_sep \<notin> set x"
    using assms by (simp_all add: valid_name_def)
  then have lastx: "last x \<noteq> os_sep"
    using last_in_set by metis
  show ?thesis
  proof (cases "p = []")
    case True
    then show ?thesis
      using assms x lastx by (simp add: path_join_valid rstrip_no_trailing basename_no_sep)
  next
    case False
    show ?thesis
    proof (cases "endswith p [os_sep]")
      case True
      then obtain t where p: "p = t @ [os_sep]"
        by (auto simp: endswith_single)
      have "rstrip (p @ x) os_sep = p @ x"
        using x lastx by (intro rstrip_no_trailing) simp_all
      then show ?thesis
        using assms True x basename_append [of x t] by (simp add: path_join_valid p)
    next
      case False
      have "rstrip (p @ os_sep # x) os_sep = p @ os_sep # x"
        using x lastx by (intro rstrip_no_trailing) simp_all
      then show ?thesis
        using assms False \<open>p \<noteq> []\<close> x by (simp add: path_join_valid basename_append)
    qed
  qed
qed

lemma startswith_hd: "startswith s (c # p) \<Longrightarrow> c \<in> set s"
  by (cases s) auto

lemma str_contains_hd: "str_contains (c # sub) s \<Longrightarrow> c \<in> set s"
  by (induction s) (auto dest: startswith_hd)

lemma rel_entry_child:
  assumes "isabs root" "valid_name x"
  shows "rel_entry env root (path_join root x) =
           (if os_path_isdir env (path_join root x) then x @ ''/'' else x)"
proof -
  have "relpath env (chain root [x]) root = Inr (str_join os_sep [x])"
    using assms by (intro relpath_chain) simp_all
  then have "relpath env (path_join root x) root = Inr x"
    by (simp add: chain_def)
  moreover have "\<not> endswith x ''/''"
    using valid_name_not_endswith [OF assms(2)] by (simp add: os_sep_def)
  ultimately show ?thesis
    by (simp add: rel_entry_def)
qed

lemma path_join_neq:
  assumes "valid_name x"
  shows "path_join p x \<noteq> p"
  using assms by (auto simp: path_join_valid valid_name_def)

lemma path_join_inj:
  assumes "valid_name x" "valid_name y" "path_join p x = path_join p y"
  shows "x = y"
  using assms by (auto simp: path_join_valid split: if_splits)

lemma str_join_last: "ns \<noteq> [] \<Longrightarrow> \<exists>pre. str_join c ns = pre @ last ns"
proof (induction c ns rule: str_join.induct)
  case (3 c p q ps)
  then obtain pre where "str_join c (q # ps) = pre @ last (q # ps)"
    by auto
  then have "str_join c (p # q # ps) = (p @ c # pre) @ last (p # q # ps)"
    by simp
  then show ?case
    by blast
qed simp_all

lemma str_join_not_endswith:
  assumes "ns \<noteq> []" "\<forall>n\<in>set ns. valid_name n"
  shows "\<not> endswith (str_join os_sep ns) ''/''"
proof -
  obtain pre where pre: "str_join os_sep ns = pre @ last ns"
    using str_join_last [OF assms(1)] by blast
  have "valid_name (last ns)"
    using assms by simp
  then obtain t x where "last ns = t @ [x]" "x \<noteq> os_sep"
    by (cases "last ns" rule: rev_cases) (auto simp: valid_name_def)
  then show ?thesis
    using pre endswith_single [of "str_join os_sep ns" os_sep] by (auto simp: os_sep_def)
qed

lemma rel_entry_chain:
  assumes "isabs root" "\<forall>n\<in>set ns. valid_name n" "ns \<noteq> []"
  shows "rel_entry env root (chain root ns)
         = str_join os_sep ns @ (if os_path_isdir env (chain root ns) then ''/'' else [])"
  using relpath_chain [OF assms, of env] str_join_not_endswith [OF assms(3,2)]
  by (simp add: rel_entry_def)

lemma append_less_append: "(p @ x < p @ y) = (x < (y :: 'a :: linorder list))"
  by (induction p) simp_all

lemma two_names:
  assumes "distinct items" "set items = {a, b}" "a \<noteq> b"
  shows "items = [a, b] \<or> items = [b, a]"
proof -
  have "length items = 2"
    using distinct_card [OF assms(1)] assms(2,3) by simp
  then obtain x y where "items = [x, y]"
    by (cases items; cases "tl items") auto
  with assms show ?thesis
    by auto
qed

lemma path_join_less:
  assumes "valid_name x" "valid_name y" "x < y"
  shows "path_join p x < path_join p y"
  using assms append_less_append [of p x y] append_less_append [of "p @ [os_sep]" x y]
  by (simp add: path_join_valid)

subsection \<open>Numbered names\<close>

lemma digit_char_cases: "d < 10 \<Longrightarrow> digit_char d \<in> set ''0123456789''"
proof -
  assume "d < 10"
  then have "d = 0 \<or> d = 1 \<or> d = 2 \<or> d = 3 \<or> d = 4 \<or> d = 5 \<or> d = 6 \<or> d = 7 \<or> d = 8 \<or> d = 9"
    by arith
  moreover have "digit_char 0 = CHR ''0''" "digit_char 1 = CHR ''1''" "digit_char 2 = CHR ''2''"
    "digit_char 3 = CHR ''3''" "digit_char 4 = CHR ''4''" "digit_char 5 = CHR ''5''"
    "digit_char 6 = CHR ''6''" "digit_char 7 = CHR ''7''" "digit_char 8 = CHR ''8''"
    "digit_char 9 = CHR ''9''"
    by code_simp+
  ultimately show ?thesis
    by (elim disjE) simp_all
qed

lemma digit_char_inj: "d < 10 \<Longrightarrow> e < 10 \<Longrightarrow> digit_char d = digit_char e \<Longrightarrow> d = e"
  by (simp add: digit_char_def char_of_eq_iff take_bit_eq_mod)

lemma div_mod_10_eq: "(x::nat) div 10 = y div 10 \<Longrightarrow> x mod 10 = y mod 10 \<Longrightarrow> x = y"
  by (metis div_mult_mod_eq)

lemma numbered_inj:
  assumes "n < 10000" "m < 10000" "numbered c n = numbered c m"
  shows "n = m"
proof -
  let ?n3 = "n div 10 div 10 div 10" and ?m3 = "m div 10 div 10 div 10"
  have e3: "digit_char (?n3 mod 10) = digit_char (?m3 mod 10)"
    and e2: "digit_char (n div 10 div 10 mod 10) = digit_char (m div 10 div 10 mod 10)"
    and e1: "digit_char (n div 10 mod 10) = digit_char (m div 10 mod 10)"
    and e0: "digit_char (n mod 10) = digit_char (m mod 10)"
    using assms(3) unfolding numbered_def by blast+
  have lt: "k mod 10 < 10" for k :: nat
    by simp
  have d3: "?n3 mod 10 = ?m3 mod 10"
    by (rule digit_char_inj [OF lt lt e3])
  have d2: "n div 10 div 10 mod 10 = m div 10 div 10 mod 10"
    by (rule digit_char_inj [OF lt lt e2])
  have d1: "n div 10 mod 10 = m div 10 mod 10"
    by (rule digit_char_inj [OF lt lt e1])
  have d0: "n mod 10 = m mod 10"
    by (rule digit_char_inj [OF lt lt e0])
  have b: "?n3 < 10" "?m3 < 10"
    using assms(1,2) by linarith+
  have "?n3 = ?m3"
    using d3 mod_less [OF b(1)] mod_less [OF b(2)] by metis
  then have "n div 10 div 10 = m div 10 div 10"
    using d2 by (rule div_mod_10_eq)
  then have "n div 10 = m div 10"
    using d1 by (rule div_mod_10_eq)
  then show ?thesis
    using d0 by (rule div_mod_10_eq)
qed

lemma set_numbered: "set (numbered c n) \<subseteq> insert c (set ''0123456789'')"
  using digit_char_cases [of "n div 10 div 10 div 10 mod 10"] digit_char_cases [of "n div 10 div 10 mod 10"]
    digit_char_cases [of "n div 10 mod 10"] digit_char_cases [of "n mod 10"]
  by (simp add: numbered_def)

lemma valid_name_numbered: "c \<noteq> CHR ''/'' \<Longrightarrow> valid_name (numbered c n)"
proof -
  assume "c \<noteq> CHR ''/''"
  then have "os_sep \<notin> set (numbered c n)"
    using set_numbered [of c n] by (auto simp: os_sep_def)
  then show ?thesis
    by (simp add: valid_name_def) (simp add: numbered_def)
qed

lemma distinct_numbered: "k \<le> 10000 \<Longrightarrow> distinct (map (numbered c) [0..<k])"
proof -
  assume "k \<le> 10000"
  then have "inj_on (numbered c) (set [0..<k])"
    by (intro inj_onI numbered_inj) simp_all
  then show ?thesis
    by (simp add: distinct_map)
qed

subsection \<open>The tree of a flat list\<close>

lemma find_node_None: "r \<notin> node_name ` set level \<Longrightarrow> find_node r level = None"
  by (induction level) auto

lemma not_endswith_slash: "os_sep \<notin> set r \<Longrightarrow> \<not> endswith r ''/''"
  using endswith_single [of r os_sep] by (auto simp: os_sep_def)

lemma add_parts_file:
  assumes "r \<noteq> []" "os_sep \<notin> set r" "find_node r level = None"
  shows "add_parts r (length (str_split r CHR ''/'')) 0 [] (str_split r CHR ''/'') level
         = level @ [Node r r File None]"
proof -
  have "str_split r CHR ''/'' = [r]"
    using assms(2) str_split_no_sep [of "CHR ''/''" r] by (simp add: os_sep_def)
  then show ?thesis
    using assms not_endswith_slash [of r] by simp
qed

lemma create_file_tree_files:
  "distinct rs \<Longrightarrow> \<forall>r\<in>set rs. r \<noteq> [] \<and> os_sep \<notin> set r \<Longrightarrow>
   create_file_tree rs = map (\<lambda>r. Node r r File None) rs"
proof (induction rs rule: rev_induct)
  case Nil
  then show ?case
    by (simp add: create_file_tree_def)
next
  case (snoc r rs)
  have IH: "create_file_tree rs = map (\<lambda>r. Node r r File None) rs"
    using snoc by simp
  have "r \<notin> node_name ` set (map (\<lambda>r. Node r r File None) rs)"
    using snoc.prems(1) by (auto simp: image_iff)
  then have "find_node r (map (\<lambda>r. Node r r File None) rs) = None"
    by (rule find_node_None)
  moreover have "r \<noteq> []" "os_sep \<notin> set r"
    using snoc.prems(2) by simp_all
  ultimately have "add_parts r (length (str_split r CHR ''/'')) 0 [] (str_split r CHR ''/'')
                     (map (\<lambda>r. Node r r File None) rs)
                   = map (\<lambda>r. Node r r File None) rs @ [Node r r File None]"
    by (intro add_parts_file)
  then show ?case
    using IH by (simp add: create_file_tree_def Let_def)
qed

lemma print_tree_files:
  "print_tree (map (\<lambda>r. Node r r File None) rs) root 0 []
   = ''- '' @ rstrip root os_sep @ ''/'' @ [CHR 0x0A]
     @ concat (map (\<lambda>r. ''  - '' @ r @ [CHR 0x0A]) rs)"
  by (subst print_tree.simps) (simp add: comp_def)

lemma render_nodes_concat: "render_nodes prefix ns = concat (map (render_node prefix) ns)"
  by (induction ns) simp_all

lemma print_tree_render: "0 < level \<Longrightarrow> print_tree tree root_path level prefix = render_nodes prefix tree"
proof (induction tree root_path level prefix rule: print_tree.induct)
  case (1 tree root_path level prefix)
  have "prefix @ ''- '' @ node_name node @ (if node_type node = Directory then ''/'' else [])
          @ [CHR 0x0A]
          @ (case node_children node of
               None \<Rightarrow> []
             | Some ch \<Rightarrow> if ch \<noteq> [] then print_tree ch root_path (level + 1) (prefix @ ''  '') else [])
        = render_node prefix node" if "node \<in> set tree" for node
  proof (cases node)
    case (Node name path type ch)
    show ?thesis
    proof (cases ch)
      case None
      with Node show ?thesis by simp
    next
      case (Some ns)
      show ?thesis
      proof (cases "ns = []")
        case True
        with Node Some show ?thesis by simp
      next
        case False
        have "print_tree ns root_path (level + 1) (prefix @ ''  '') = render_nodes (prefix @ ''  '') ns"
          using "1.IH" [of root_path "[]" prefix node ns] that Node Some False "1.prems" by simp
        with Node Some False show ?thesis by simp
      qed
    qed
  qed
  then have "concat (map (\<lambda>node. prefix @ ''- '' @ node_name node @ (if node_type node = Directory then ''/'' else [])
          @ [CHR 0x0A]
          @ (case node_children node of
               None \<Rightarrow> []
             | Some ch \<Rightarrow> if ch \<noteq> [] then print_tree ch root_path (level + 1) (prefix @ ''  '') else [])) tree)
        = concat (map (render_node prefix) tree)"
    by (intro arg_cong [where f = concat] map_cong) simp_all
  then show ?case
    using "1.prems" by (subst print_tree.simps) (simp add: render_nodes_concat)
qed

lemma print_tree_body:
  assumes "0 < level"
  shows "concat (map (\<lambda>node. prefix @ ''- '' @ node_name node
                      @ (if node_type node = Directory then ''/'' else []) @ [CHR 0x0A]
                      @ (case node_children node of
                           None \<Rightarrow> []
                         | Some ch \<Rightarrow> if ch \<noteq> [] then print_tree ch root_path level (prefix @ ''  '')
                                      else [])) tree)
         = render_nodes prefix tree"
proof (induction tree)
  case Nil
  show ?case by simp
next
  case (Cons node tree)
  have "prefix @ ''- '' @ node_name node @ (if node_type node = Directory then ''/'' else [])
          @ [CHR 0x0A]
          @ (case node_children node of
               None \<Rightarrow> []
             | Some ch \<Rightarrow> if ch \<noteq> [] then print_tree ch root_path level (prefix @ ''  '') else [])
        = render_node prefix node"
    using assms by (cases node) (simp add: print_tree_render split: option.splits)
  with Cons show ?case
    by simp
qed

lemma print_tree_root:
  "print_tree tree root_path 0 prefix
   = ''- '' @ rstrip root_path os_sep @ ''/'' @ [CHR 0x0A] @ render_nodes ''  '' tree"
  using print_tree_body [of "0 + 1" "''  ''" "rstrip root_path os_sep @ ''/''" tree]
  by (subst print_tree.simps) (simp add: Let_def)

subsection \<open>A directory without subdirectories\<close>

lemma loop_body_file_count:
  assumes "queue s = p # rest" "loop_body env root ign s = Inr s'"
  shows "file_count s' = file_count s
           + (if \<not> should_skip p ign \<and> p \<noteq> root \<and> \<not> os_path_isdir env p then 1 else 0)"
  using assms
  by (auto simp: loop_body_def Let_def split: sum.splits if_splits)

lemma scan_root:
  assumes "root \<noteq> []" "\<not> should_skip root ign" "\<forall>e. \<not> listing_raises env root e"
  shows "scan_loop env root ign \<lparr>results = [], queue = [root], file_count = 0\<rparr>
         = scan_loop env root ign \<lparr>results = [], queue = enqueued env ign root, file_count = 0\<rparr>"
proof -
  let ?s = "\<lparr>results = [], queue = [root], file_count = 0\<rparr>"
  have "loop_body env root ign ?s
        = Inr \<lparr>results = [], queue = enqueued env ign root, file_count = 0\<rparr>"
    using loop_body_visit [of ?s root "[]" ign env root] assms by simp
  then show ?thesis
    by (intro scan_loop_step) (simp_all add: MAX_FILES_def)
qed

lemma set_path_join: "set (path_join p x) \<subseteq> insert os_sep (set p \<union> set x)"
  by (auto simp: path_join_def)

lemma not_skipped_child:
  assumes "valid_name x" "\<not> startswith x ''.''" "CHR ''_'' \<notin> set p \<union> set x"
  shows "\<not> should_skip (path_join p x) []"
proof -
  have "basename (rstrip (path_join p x) os_sep) = x"
    using assms(1) by (rule basename_rstrip_path_join)
  moreover have "x \<noteq> ''__pycache__''"
    using assms(3) by auto
  moreover have "CHR ''_'' \<notin> set (path_join p x)"
    using set_path_join [of p x] assms(3) by (auto simp: os_sep_def)
  then have "\<not> str_contains ''__pycache__/'' (path_join p x)"
    using str_contains_hd by blast
  ultimately show ?thesis
    using assms(2) by (simp add: should_skip_def)
qed

lemma not_skipped_numbered:
  assumes "c \<noteq> CHR ''/''" "c \<noteq> CHR ''.''" "c \<noteq> CHR ''_''" "CHR ''_'' \<notin> set p"
  shows "\<not> should_skip (path_join p (numbered c n)) []"
proof (rule not_skipped_child)
  show "valid_name (numbered c n)"
    using assms(1) by (rule valid_name_numbered)
  show "\<not> startswith (numbered c n) ''.''"
    using assms(2) by (simp add: numbered_def)
  show "CHR ''_'' \<notin> set p \<union> set (numbered c n)"
    using set_numbered [of c n] assms(3,4) by auto
qed

lemma map_of_map_const: "k \<in> set ks \<Longrightarrow> map_of (map (\<lambda>k. (g k, v)) ks) (g k) = Some v"
  by (induction ks) auto

lemma scan_visit:
  assumes "queue s = p # rest" "file_count s < MAX_FILES" "\<not> should_skip p ign" "p \<noteq> []"
    "\<forall>e. \<not> listing_raises env p e"
  shows "scan_loop env root ign s =
         scan_loop env root ign
           \<lparr>results = results s @ (if p \<noteq> root then [rel_entry env root p] else []),
            queue = rest @ enqueued env ign p,
            file_count = file_count s + (if p \<noteq> root \<and> \<not> os_path_isdir env p then 1 else 0)\<rparr>"
  using loop_body_visit [OF assms(1,3,4,5), of root] assms(1,2)
  by (intro scan_loop_step) simp_all

lemma valid_name_examples: "valid_name ''a.txt''" "valid_name ''b''" "valid_name ''c.txt''"
  by (simp_all add: valid_name_def os_sep_def)

subsection \<open>The banner and the root line\<close>

lemma TRUNCATED_MESSAGE_text:
  "TRUNCATED_MESSAGE =
     ''There are more than 1000 files in the repository. Use the LS tool (passing a specific path), Bash tool, and other tools to explore nested directories. The first 1000 files and directories are included below:'' @ [CHR 0x0A, CHR 0x0A]"
  by code_simp

lemma dropWhile_not_startswith: "\<not> startswith (dropWhile (\<lambda>x. x = c) xs) [c]"
  by (induction xs) auto

lemma rstrip_not_endswith: "\<not> endswith (rstrip s c) [c]"
  using dropWhile_not_startswith [of c "rev s"] by (simp add: rstrip_def endswith_def)

lemma rstrip_no_slash: "\<not> endswith (rstrip s os_sep) ''/''"
  using rstrip_not_endswith [of s os_sep] by (simp add: os_sep_def)

subsection \<open>The paths on the queue\<close>

lemma set_enqueued_Inr:
  assumes "os_listdir env p = Inr items"
  shows "e \<in> set (enqueued env ign p) \<longleftrightarrow>
     os_path_isdir env p \<and> \<not> should_skip e ign \<and> (\<exists>x\<in>set items. e = path_join p x)"
proof (cases "os_path_isdir env p")
  case True
  then have "enqueued env ign p = filter (\<lambda>q. \<not> should_skip q ign) (sort (map (path_join p) items))"
    using assms by (simp add: enqueued_def)
  then have "e \<in> set (enqueued env ign p) \<longleftrightarrow> e \<in> set (map (path_join p) items) \<and> \<not> should_skip e ign"
    by (simp only: set_filter mem_Collect_eq set_sort)
  with True show ?thesis
    by (simp only: set_map image_iff) blast
next
  case False
  then show ?thesis
    by (simp add: enqueued_def)
qed

lemma enqueued_child:
  assumes "e \<in> set (enqueued env ign p)"
  shows "os_path_isdir env p \<and> \<not> should_skip e ign
     \<and> (\<exists>items x. os_listdir env p = Inr items \<and> x \<in> set items \<and> e = path_join p x)"
proof (cases "os_listdir env p")
  case (Inl err)
  then have "enqueued env ign p = []"
    by (simp add: enqueued_def)
  with assms show ?thesis
    by simp
next
  case (Inr items)
  have "os_path_isdir env p \<and> \<not> should_skip e ign \<and> (\<exists>x\<in>set items. e = path_join p x)"
    by (rule iffD1 [OF set_enqueued_Inr [OF Inr] assms])
  then obtain x where "os_path_isdir env p" "\<not> should_skip e ign" "x \<in> set items" "e = path_join p x"
    by blast
  with Inr show ?thesis
    by blast
qed

lemma child_enqueued:
  assumes "os_path_isdir env p" "os_listdir env p = Inr items" "x \<in> set items"
    "\<not> should_skip (path_join p x) ign"
  shows "path_join p x \<in> set (enqueued env ign p)"
proof -
  have "\<exists>y\<in>set items. path_join p x = path_join p y"
    using assms(3) by blast
  with assms(1,4) show ?thesis
    by (intro iffD2 [OF set_enqueued_Inr [OF assms(2)]] conjI)
qed

lemma loop_body_cases:
  assumes "queue s = p # rest" "p \<noteq> []" "loop_body env root ign s = Inr s'"
  obtains (skip) "should_skip p ign" "s' = s\<lparr>queue := rest\<rparr>"
  | (visit) "\<not> should_skip p ign" "\<forall>e. \<not> listing_raises env p e"
      "s' = \<lparr>results = results s @ (if p \<noteq> root then [rel_entry env root p] else []),
             queue = rest @ enqueued env ign p,
             file_count = file_count s + (if p \<noteq> root \<and> \<not> os_path_isdir env p then 1 else 0)\<rparr>"
proof (cases "should_skip p ign")
  case True
  with assms loop_body_skip [OF assms(1) True, of env root] skip show ?thesis
    by simp
next
  case False
  show ?thesis
  proof (cases "\<exists>e. listing_raises env p e")
    case True
    then obtain e where "listing_raises env p e"
      by blast
    from loop_body_raise [OF assms(1) False assms(2) this, of root] assms(3) show ?thesis
      by simp
  next
    case no_raise: False
    then have nr: "\<forall>e. \<not> listing_raises env p e"
      by simp
    from loop_body_visit [OF assms(1) False assms(2) nr, of root] assms(3) False nr visit
    show ?thesis
      by simp
  qed
qed

lemma queue_isabs_step:
  assumes "\<forall>q\<in>set (queue s). isabs q" "queue s \<noteq> []" "loop_body env root ign s = Inr s'"
  shows "\<forall>q\<in>set (queue s'). isabs q"
proof -
  obtain p rest where q: "queue s = p # rest"
    using assms(2) by (cases "queue s") auto
  then have p: "isabs p" and rest: "\<forall>q\<in>set rest. isabs q"
    using assms(1) by simp_all
  then have "p \<noteq> []"
    by (auto simp: isabs_iff)
  from q this assms(3) show ?thesis
  proof (cases rule: loop_body_cases)
    case skip
    with rest show ?thesis by simp
  next
    case visit
    have "isabs e" if "e \<in> set (enqueued env ign p)" for e
      using enqueued_child [OF that] p by (auto simp: isabs_path_join)
    with rest visit(3) show ?thesis
      by auto
  qed
qed

lemma enqueued_agree:
  assumes agree: "\<And>p. isabs p \<Longrightarrow> should_skip p ign1 = should_skip p ign2" and "isabs p"
  shows "enqueued env ign1 p = enqueued env ign2 p"
proof -
  have "filter (\<lambda>q. \<not> should_skip q ign1) (sort (map (path_join p) items))
        = filter (\<lambda>q. \<not> should_skip q ign2) (sort (map (path_join p) items))" for items
  proof (rule filter_cong [OF refl])
    fix q assume "q \<in> set (sort (map (path_join p) items))"
    then have "isabs q"
      using assms(2) by (auto simp: isabs_path_join)
    then show "(\<not> should_skip q ign1) = (\<not> should_skip q ign2)"
      by (simp add: agree)
  qed
  then show ?thesis
    by (simp add: enqueued_def split: sum.splits)
qed

lemma loop_body_agree:
  assumes agree: "\<And>p. isabs p \<Longrightarrow> should_skip p ign1 = should_skip p ign2"
    and "\<forall>q\<in>set (queue s). isabs q" "queue s \<noteq> []"
  shows "loop_body env root ign1 s = loop_body env root ign2 s"
proof -
  obtain p rest where q: "queue s = p # rest"
    using assms(3) by (cases "queue s") auto
  then have p: "isabs p"
    using assms(2) by simp
  then have ne: "p \<noteq> []"
    by (auto simp: isabs_iff)
  note same = agree [OF p]
  show ?thesis
  proof (cases "should_skip p ign1")
    case True
    then show ?thesis
      using same loop_body_skip [OF q, of ign1 env root] loop_body_skip [OF q, of ign2 env root]
      by simp
  next
    case False
    then have ns: "\<not> should_skip p ign1" "\<not> should_skip p ign2"
      using same by simp_all
    show ?thesis
    proof (cases "\<exists>e. listing_raises env p e")
      case True
      then obtain e where e: "listing_raises env p e"
        by blast
      show ?thesis
        using loop_body_raise [OF q ns(1) ne e, of root] loop_body_raise [OF q ns(2) ne e, of root]
        by simp
    next
      case no_raise: False
      then have nr: "\<forall>e. \<not> listing_raises env p e"
        by simp
      show ?thesis
        using loop_body_visit [OF q ns(1) ne nr, of root] loop_body_visit [OF q ns(2) ne nr, of root]
          enqueued_agree [OF agree p, of env]
        by simp
    qed
  qed
qed

lemma scan_loop_agree_Some:
  assumes agree: "\<And>p. isabs p \<Longrightarrow> should_skip p ign1 = should_skip p ign2"
    and run: "scan_loop env root ign1 st = Some r"
    and abs: "\<forall>q\<in>set (queue st). isabs q"
  shows "scan_loop env root ign2 st = Some r"
proof -
  define P where "P env' root' ign' s y \<longleftrightarrow>
     (env' = env \<longrightarrow> root' = root \<longrightarrow> ign' = ign1 \<longrightarrow> (\<forall>q\<in>set (queue s). isabs q)
        \<longrightarrow> scan_loop env root ign2 s = Some y)" for env' root' ign' s y
  have "P env root ign1 st r"
  proof (rule scan_loop.raw_induct [where P = P, OF _ run])
    fix f env' root' ign' s y
    assume IH: "\<And>a b c d y. f a b c d = Some y \<Longrightarrow> P a b c d y"
      and unf: "(if queue s \<noteq> [] \<and> file_count s < MAX_FILES
                 then case loop_body env' root' ign' s of
                        Inl e \<Rightarrow> Some (Inl e)
                      | Inr st' \<Rightarrow> f env' root' ign' st'
                 else Some (Inr s)) = Some y"
    show "P env' root' ign' s y"
      unfolding P_def
    proof (intro impI)
      assume eqs: "env' = env" "root' = root" "ign' = ign1" and abs_s: "\<forall>q\<in>set (queue s). isabs q"
      show "scan_loop env root ign2 s = Some y"
      proof (cases "queue s \<noteq> [] \<and> file_count s < MAX_FILES")
        case False
        with unf have "y = Inr s" by auto
        with False show ?thesis by (auto simp: scan_loop_done)
      next
        case True
        have same: "loop_body env root ign2 s = loop_body env root ign1 s"
          using loop_body_agree [OF agree abs_s, of env root] True by simp
        show ?thesis
        proof (cases "loop_body env root ign1 s")
          case (Inl e)
          with True unf eqs have "y = Inl e" by auto
          with True Inl same show ?thesis by (simp add: scan_loop_raise)
        next
          case (Inr s')
          with True unf eqs have "f env root ign1 s' = Some y"
            by auto
          moreover have "\<forall>q\<in>set (queue s'). isabs q"
            using queue_isabs_step [OF abs_s _ Inr] True by simp
          ultimately have "scan_loop env root ign2 s' = Some y"
            using IH [of env root ign1 s' y] by (simp add: P_def)
          moreover have "scan_loop env root ign2 s = scan_loop env root ign2 s'"
            using True Inr same by (intro scan_loop_step) simp_all
          ultimately show ?thesis by simp
        qed
      qed
    qed
  qed
  with abs show ?thesis by (simp add: P_def)
qed

lemma scan_loop_agree:
  assumes agree: "\<And>p. isabs p \<Longrightarrow> should_skip p ign1 = should_skip p ign2"
    and abs: "\<forall>q\<in>set (queue st). isabs q"
  shows "scan_loop env root ign1 st = scan_loop env root ign2 st"
proof (cases "scan_loop env root ign1 st")
  case (Some r)
  with scan_loop_agree_Some [OF agree Some abs] show ?thesis
    by simp
next
  case None
  show ?thesis
  proof (cases "scan_loop env root ign2 st")
    case (Some r)
    have "scan_loop env root ign1 st = Some r"
      using agree by (intro scan_loop_agree_Some [OF _ Some abs]) simp
    with None show ?thesis by simp
  next
    case None': None
    with None show ?thesis by simp
  qed
qed

lemma fnmatch_literal:
  "c \<noteq> CHR ''*'' \<Longrightarrow> c \<noteq> CHR ''?'' \<Longrightarrow> c \<noteq> CHR ''['' \<Longrightarrow>
   fnmatch (d # name) (c # pat) = (d = c \<and> fnmatch name pat)"
  by simp

lemma fnmatch_star_unfold:
  "fnmatch name (CHR ''*'' # pat)
   = (fnmatch name pat \<or> (case name of [] \<Rightarrow> False | c # cs \<Rightarrow> fnmatch cs (CHR ''*'' # pat)))"
  by simp

lemma fnmatch_star: "fnmatch s pat \<Longrightarrow> fnmatch (pre @ s) (CHR ''*'' # pat)"
proof (induction pre)
  case Nil
  then show ?case
    by (subst fnmatch_star_unfold) simp
next
  case (Cons x pre)
  then have "fnmatch (pre @ s) (CHR ''*'' # pat)"
    by simp
  then show ?case
    by (subst fnmatch_star_unfold) simp
qed

lemma no_match_absolute:
  assumes "isabs p" "c \<notin> {CHR ''*'', CHR ''?'', CHR ''['', CHR ''/''}"
  shows "\<not> fnmatch p (c # pat)"
proof -
  obtain t where "p = CHR ''/'' # t"
    using assms(1) by (auto simp: isabs_iff os_sep_def)
  with assms(2) show ?thesis
    by (auto simp: fnmatch_literal)
qed

lemma should_skip_Cons:
  "should_skip p (pat # ign) = (should_skip p ign \<or> fnmatch p pat)"
  by (auto simp: should_skip_def Let_def)

lemma list_directory_agree:
  assumes "\<And>p. isabs p \<Longrightarrow> should_skip p ign1 = should_skip p ign2" "isabs root"
  shows "list_directory env root ign1 = list_directory env root ign2"
  using scan_loop_agree [OF assms(1), of "\<lparr>results = [], queue = [root], file_count = 0\<rparr>" env root]
    assms(2)
  by (simp add: list_directory_def)

lemma isabs_normpath: "isabs p \<Longrightarrow> isabs (normpath p)"
  using initial_slashes_pos [of p]
  by (cases "initial_slashes p") (simp_all add: normpath_isabs isabs_iff)

lemma isabs_abspath:
  assumes "isabs (os_getcwd env)"
  shows "isabs (abspath env p)"
proof (cases "startswith p [os_sep]")
  case True
  then have "isabs p"
    by (simp add: isabs_def)
  then have "isabs (normpath p)"
    by (rule isabs_normpath)
  with True show ?thesis
    by (simp add: abspath_def)
next
  case False
  have "isabs (path_join (os_getcwd env) p)"
    using assms by (rule isabs_path_join)
  then have "isabs (normpath (path_join (os_getcwd env) p))"
    by (rule isabs_normpath)
  with False show ?thesis
    by (simp add: abspath_def)
qed

lemma forward_agree:
  assumes "\<And>p. isabs p \<Longrightarrow> should_skip p ign1 = should_skip p ign2" "isabs (os_getcwd env)"
  shows "forward env path (Some ign1) = forward env path (Some ign2)"
proof -
  let ?p = "if \<not> isabs path then abspath env path else path"
  have "isabs ?p"
    using assms(2) by (simp add: isabs_abspath)
  with assms(1) have "list_directory env ?p ign1 = list_directory env ?p ign2"
    by (rule list_directory_agree)
  then show ?thesis
    by (simp add: forward_def Let_def)
qed

subsection \<open>Where the entries come from\<close>

lemma chain_Cons: "chain root (x # ns) = chain (path_join root x) ns"
  by (simp add: chain_def)

lemma walk_snoc:
  "walk env ign p (ns @ [x]) \<longleftrightarrow>
     walk env ign p ns \<and> os_path_isdir env (chain p ns)
     \<and> (\<exists>items. os_listdir env (chain p ns) = Inr items \<and> x \<in> set items)
     \<and> \<not> should_skip (path_join (chain p ns) x) ign"
proof (induction ns arbitrary: p)
  case Nil
  show ?case
    by (cases "os_listdir env p") (auto simp: chain_def)
next
  case (Cons n ns)
  show ?case
    using Cons [of "path_join p n"] by (auto simp: chain_Cons)
qed

lemma walk_take: "walk env ign p ns \<Longrightarrow> walk env ign p (take k ns)"
proof (induction ns arbitrary: p k)
  case Nil
  then show ?case by simp
next
  case (Cons n ns)
  then show ?case
    by (cases k) (auto split: sum.splits)
qed

lemma walk_last_not_skipped: "walk env ign p ns \<Longrightarrow> \<not> should_skip (chain p ns) ign"
  by (induction ns arbitrary: p) (auto simp: chain_def)

lemma walk_not_skipped: "walk env ign p ns \<Longrightarrow> \<not> should_skip (chain p (take k ns)) ign"
  using walk_take walk_last_not_skipped by blast


lemma traced_step:
  assumes abs: "isabs root" and inv: "traced env root ign s" and ne: "queue s \<noteq> []"
    and step: "loop_body env root ign s = Inr s'"
  shows "traced env root ign s'"
proof -
  obtain p rest where q: "queue s = p # rest"
    using ne by (cases "queue s") auto
  obtain ns where ns: "p = chain root ns" "ns = [] \<or> walk env ign root ns"
    using inv q by (auto simp: traced_def)
  have rest: "\<forall>p\<in>set rest. \<exists>ns. p = chain root ns \<and> (ns = [] \<or> walk env ign root ns)"
    using inv q by (simp add: traced_def)
  have res: "\<forall>e\<in>set (results s). \<exists>ns. ns \<noteq> [] \<and> walk env ign root ns
                                    \<and> e = rel_entry env root (chain root ns)"
    using inv by (simp add: traced_def)
  have "isabs p"
    unfolding ns(1) using abs by (rule isabs_chain)
  then have "p \<noteq> []"
    by (auto simp: isabs_iff)
  from q this step show ?thesis
  proof (cases rule: loop_body_cases)
    case skip
    with rest res show ?thesis
      by (simp add: traced_def)
  next
    case visit
    have w: "walk env ign root ns"
    proof (cases "ns = []")
      case True
      with visit(1) ns(1) show ?thesis
        by (simp add: chain_def)
    next
      case False
      with ns(2) show ?thesis by simp
    qed
    have new_entry: "\<exists>ms. ms \<noteq> [] \<and> walk env ign root ms
                      \<and> rel_entry env root p = rel_entry env root (chain root ms)"
      if "p \<noteq> root"
    proof -
      have "ns \<noteq> []"
        using that ns(1) by (auto simp: chain_def)
      with w ns(1) show ?thesis
        by blast
    qed
    have new_queue: "\<exists>ms. e = chain root ms \<and> (ms = [] \<or> walk env ign root ms)"
      if mem: "e \<in> set (enqueued env ign p)" for e
    proof -
      obtain items x where c: "os_path_isdir env p" "\<not> should_skip e ign"
        "os_listdir env p = Inr items" "x \<in> set items" "e = path_join p x"
        using enqueued_child [OF mem] by blast
      have "walk env ign root (ns @ [x])"
        unfolding walk_snoc using w c ns(1) by auto
      moreover have "e = chain root (ns @ [x])"
        using c(5) ns(1) by (simp add: chain_snoc)
      ultimately show ?thesis
        by blast
    qed
    show ?thesis
      unfolding traced_def visit(3) using rest res new_entry new_queue by auto
  qed
qed

lemma list_directory_traced:
  assumes "isabs root" "list_directory env root ign = Some (Inr rs)" "e \<in> set rs"
  shows "\<exists>ns. ns \<noteq> [] \<and> walk env ign root ns \<and> e = rel_entry env root (chain root ns)"
proof -
  let ?s0 = "\<lparr>results = [], queue = [root], file_count = 0\<rparr>"
  obtain st where run: "scan_loop env root ign ?s0 = Some (Inr st)" and rs: "rs = sort (results st)"
    using assms(2) by (auto simp: list_directory_def split: option.splits sum.splits)
  have "root = chain root []"
    by (simp add: chain_def)
  then have init: "traced env root ign ?s0"
    unfolding traced_def by auto
  have "traced env root ign st"
    using scan_loop_rule [OF run, of "traced env root ign"] init traced_step [OF assms(1)]
    by blast
  moreover have "e \<in> set (results st)"
    using assms(3) rs by simp
  ultimately show ?thesis
    unfolding traced_def by blast
qed

lemma walk_valid:
  "proper_listings env \<Longrightarrow> walk env ign p ns \<Longrightarrow> \<forall>n\<in>set ns. valid_name n"
proof (induction ns arbitrary: p)
  case Nil
  then show ?case by simp
next
  case (Cons x ns)
  from Cons.prems(2) obtain items where items: "os_listdir env p = Inr items" "x \<in> set items"
    and rest: "walk env ign (path_join p x) ns"
    by (cases "os_listdir env p") auto
  have "valid_name x"
    using Cons.prems(1) items unfolding proper_listings_def by blast
  moreover have "\<forall>n\<in>set ns. valid_name n"
    using Cons.IH [OF Cons.prems(1) rest] .
  ultimately show ?case by simp
qed

lemma is_hidden_should_skip: "is_hidden p \<Longrightarrow> should_skip p ign"
  by (simp add: is_hidden_def should_skip_def Let_def)

lemma list_ex_should_skip: "P \<in> set ign \<Longrightarrow> fnmatch p P \<Longrightarrow> should_skip p ign"
  by (auto simp: should_skip_def Let_def list_ex_iff)

lemma entry_inj:
  assumes ns: "ns \<noteq> []" "\<forall>n\<in>set ns. valid_name n"
    and ms: "ms \<noteq> []" "\<forall>n\<in>set ms. valid_name n"
    and s: "s = [] \<or> s = ''/''" and t: "t = [] \<or> t = ''/''"
    and eq: "str_join os_sep ns @ s = str_join os_sep ms @ t"
  shows "ns = ms"
proof -
  have n1: "\<not> endswith (str_join os_sep ns) ''/''"
    using ns by (rule str_join_not_endswith)
  have n2: "\<not> endswith (str_join os_sep ms) ''/''"
    using ms by (rule str_join_not_endswith)
  have "s = t"
  proof (rule ccontr)
    assume "s \<noteq> t"
    with s t consider "s = []" "t = ''/''" | "s = ''/''" "t = []"
      by auto
    then show False
    proof cases
      case 1
      with eq have "str_join os_sep ns = str_join os_sep ms @ ''/''"
        by simp
      with n1 show False
        by (simp add: endswith_single)
    next
      case 2
      with eq have "str_join os_sep ms = str_join os_sep ns @ ''/''"
        by simp
      with n2 show False
        by (simp add: endswith_single)
    qed
  qed
  with eq have "str_join os_sep ns = str_join os_sep ms"
    by simp
  then have "str_split (str_join os_sep ns) os_sep = str_split (str_join os_sep ms) os_sep"
    by simp
  moreover have "str_split (str_join os_sep ns) os_sep = ns"
    using ns by (intro str_split_str_join) (auto simp: valid_name_def)
  moreover have "str_split (str_join os_sep ms) os_sep = ms"
    using ms by (intro str_split_str_join) (auto simp: valid_name_def)
  ultimately show ?thesis by simp
qed

lemma skipped_absent:
  assumes abs: "isabs root" and proper: "proper_listings env"
    and run: "list_directory env root ign = Some (Inr rs)"
    and ns: "ns \<noteq> []" "\<forall>n\<in>set ns. valid_name n"
    and skip: "should_skip (chain root (take k ns)) ign"
    and s: "s = [] \<or> s = ''/''"
  shows "str_join os_sep ns @ s \<notin> set rs"
proof
  assume "str_join os_sep ns @ s \<in> set rs"
  with abs run obtain ms where ms: "ms \<noteq> []" "walk env ign root ms"
    and e: "str_join os_sep ns @ s = rel_entry env root (chain root ms)"
    using list_directory_traced by blast
  have valid: "\<forall>n\<in>set ms. valid_name n"
    using proper ms(2) by (rule walk_valid)
  have "rel_entry env root (chain root ms)
         = str_join os_sep ms @ (if os_path_isdir env (chain root ms) then ''/'' else [])"
    using abs valid ms(1) by (rule rel_entry_chain)
  with e have eq: "str_join os_sep ns @ s
         = str_join os_sep ms @ (if os_path_isdir env (chain root ms) then ''/'' else [])"
    by simp
  have "ns = ms"
    by (rule entry_inj [OF ns ms(1) valid s _ eq]) simp
  moreover have "\<not> should_skip (chain root (take k ms)) ign"
    using ms(2) by (rule walk_not_skipped)
  ultimately show False
    using skip by simp
qed

lemma proper_listings_tree_env:
  "\<forall>(d, items)\<in>set dirs. \<forall>x\<in>set items. valid_name x \<Longrightarrow> proper_listings (tree_env dirs files)"
  unfolding proper_listings_def tree_env_def
  by (auto split: option.splits if_splits dest!: map_of_SomeD)

lemma valid_name_samples:
  "valid_name ''.git''" "valid_name ''config''" "valid_name ''README.md''" "valid_name ''src''"
  "valid_name ''.env''" "valid_name ''.cache''" "valid_name ''main.py''" "valid_name ''x''"
  "valid_name ''app.log''" "valid_name ''app.py''"
  by (simp_all add: valid_name_def os_sep_def)

lemma proper_listings_hidden_env: "proper_listings hidden_env"
  unfolding hidden_env_def
  by (rule proper_listings_tree_env) (simp add: valid_name_samples)

lemma proper_listings_logs_env: "proper_listings logs_env"
  unfolding logs_env_def
  by (rule proper_listings_tree_env) (simp add: valid_name_samples)

subsection \<open>The loop returns, and what it has collected then\<close>

lemma loop_body_returns:
  assumes caught: "\<forall>e. \<not> listing_raises env p e" and q: "queue s = p # rest" and p: "p \<noteq> []"
  shows "\<exists>s'. loop_body env root ign s = Inr s'
            \<and> (queue s' = rest \<or> queue s' = rest @ enqueued env ign p)"
proof (cases "should_skip p ign")
  case True
  with q show ?thesis
    by (simp add: loop_body_skip)
next
  case False
  with q p caught show ?thesis
    by (simp add: loop_body_visit)
qed

lemma scan_loop_returns:
  fixes rank :: "string \<Rightarrow> nat"
  assumes rank: "\<forall>p. \<forall>c\<in>set (enqueued env ign p). rank c < rank p"
    and caught: "\<forall>p e. \<not> listing_raises env p e"
    and abs: "\<forall>q\<in>set (queue s). isabs q"
  shows "\<exists>s'. scan_loop env root ign s = Some (Inr s')"
proof -
  have "wf (inv_image (mult (measure rank)) (\<lambda>s. mset (queue s)))"
    by (intro wf_inv_image wf_mult wf_measure)
  then show ?thesis
    using abs
  proof (induction s rule: wf_induct_rule)
    case (less s)
    show ?case
    proof (cases "queue s \<noteq> [] \<and> file_count s < MAX_FILES")
      case False
      then have "scan_loop env root ign s = Some (Inr s)"
        by (intro scan_loop_done) auto
      then show ?thesis by blast
    next
      case True
      then obtain p rest where q: "queue s = p # rest"
        by (cases "queue s") auto
      have "isabs p"
        using less.prems q by simp
      then have p: "p \<noteq> []"
        by (auto simp: isabs_iff)
      obtain s' where step: "loop_body env root ign s = Inr s'"
        and q': "queue s' = rest \<or> queue s' = rest @ enqueued env ign p"
        using loop_body_returns [OF _ q p] caught by blast
      have abs': "\<forall>q\<in>set (queue s'). isabs q"
        using less.prems _ step by (rule queue_isabs_step) (use True in simp)
      have smaller: "(mset (queue s'), mset (queue s)) \<in> mult (measure rank)"
      proof -
        from q' obtain cs where cs: "queue s' = rest @ cs" "set cs \<subseteq> set (enqueued env ign p)"
          by auto
        have "(mset rest + mset cs, mset rest + {#p#}) \<in> mult (measure rank)"
        proof (rule one_step_implies_mult)
          show "{#p#} \<noteq> {#}" by simp
          show "\<forall>k\<in>#mset cs. \<exists>j\<in>#{#p#}. (k, j) \<in> measure rank"
            using cs(2) rank by auto
        qed
        then show ?thesis
          using cs(1) q by simp
      qed
      have "\<exists>r. scan_loop env root ign s' = Some (Inr r)"
        using less.IH [of s'] smaller abs' by simp
      moreover have "scan_loop env root ign s = scan_loop env root ign s'"
        using True step by (intro scan_loop_step) auto
      ultimately show ?thesis by simp
    qed
  qed
qed

lemma length_path_join: "valid_name x \<Longrightarrow> length p < length (path_join p x)"
  by (auto simp: path_join_valid valid_name_def)

lemma length_chain: "\<forall>n\<in>set ns. valid_name n \<Longrightarrow> length root \<le> length (chain root ns)"
proof (induction ns rule: rev_induct)
  case Nil
  show ?case by (simp add: chain_def)
next
  case (snoc x ns)
  then have "length root \<le> length (chain root ns)" "valid_name x"
    by simp_all
  then show ?case
    using length_path_join [of x "chain root ns"] by (simp add: chain_snoc)
qed

lemma chain_neq_root:
  assumes "\<forall>n\<in>set ns. valid_name n" "ns \<noteq> []"
  shows "chain root ns \<noteq> root"
proof -
  obtain ms x where ns: "ns = ms @ [x]"
    using assms(2) by (cases ns rule: rev_cases) auto
  have "length root \<le> length (chain root ms)"
    using assms(1) ns by (intro length_chain) simp
  moreover have "length (chain root ms) < length (chain root ns)"
    using assms(1) ns by (simp add: chain_snoc length_path_join)
  ultimately show ?thesis
    by auto
qed

lemma covered_step:
  assumes abs: "\<forall>q\<in>set (queue s). isabs q" and proper: "proper_listings env"
    and inv: "covered env root ign s" and ne: "queue s \<noteq> []"
    and step: "loop_body env root ign s = Inr s'"
  shows "covered env root ign s'"
proof -
  obtain p rest where q: "queue s = p # rest"
    using ne by (cases "queue s") auto
  have "isabs p"
    using abs q by simp
  then have p: "p \<noteq> []"
    by (auto simp: isabs_iff)
  show ?thesis
    unfolding covered_def
  proof (intro allI impI)
    fix ns
    assume a: "ns \<noteq> [] \<and> walk env ign root ns"
    then have w: "walk env ign root ns" and nn: "ns \<noteq> []"
      by simp_all
    have valid: "\<forall>n\<in>set ns. valid_name n"
      using proper w by (rule walk_valid)
    from inv a consider
        (found) "rel_entry env root (chain root ns) \<in> set (results s)"
      | (tail) k where "k \<le> length ns" "chain root (take k ns) \<in> set rest"
      | (head) k where "k \<le> length ns" "chain root (take k ns) = p"
      unfolding covered_def q by auto
    then show "rel_entry env root (chain root ns) \<in> set (results s')
        \<or> (\<exists>k\<le>length ns. chain root (take k ns) \<in> set (queue s'))"
    proof cases
      case found
      from q p step show ?thesis
        by (cases rule: loop_body_cases) (use found in auto)
    next
      case tail
      from q p step show ?thesis
        by (cases rule: loop_body_cases) (use tail in auto)
    next
      case head
      have ns_p: "\<not> should_skip p ign"
        using walk_not_skipped [OF w, of k] head(2) by simp
      from q p step show ?thesis
      proof (cases rule: loop_body_cases)
        case skip
        with ns_p show ?thesis by simp
      next
        case visit
        show ?thesis
        proof (cases "k = length ns")
          case True
          then have "p = chain root ns"
            using head(2) by simp
          moreover have "chain root ns \<noteq> root"
            using valid nn by (rule chain_neq_root)
          ultimately show ?thesis
            using visit(3) by simp
        next
          case False
          then have k: "k < length ns"
            using head(1) by simp
          then have tk: "take (Suc k) ns = take k ns @ [ns ! k]"
            by (rule take_Suc_conv_app_nth)
          have "walk env ign root (take k ns @ [ns ! k])"
            using walk_take [OF w, of "Suc k"] tk by simp
          then obtain items where items: "os_path_isdir env p" "os_listdir env p = Inr items"
            "ns ! k \<in> set items" "\<not> should_skip (path_join p (ns ! k)) ign"
            unfolding walk_snoc head(2) by blast
          then have "path_join p (ns ! k) \<in> set (enqueued env ign p)"
            by (rule child_enqueued)
          moreover have "chain root (take (Suc k) ns) = path_join p (ns ! k)"
            using tk head(2) by (simp add: chain_snoc)
          ultimately have "chain root (take (Suc k) ns) \<in> set (queue s')"
            using visit(3) by simp
          moreover have "Suc k \<le> length ns"
            using k by simp
          ultimately show ?thesis
            by blast
        qed
      qed
    qed
  qed
qed

lemma scan_loop_covered:
  assumes abs: "isabs root" and proper: "proper_listings env"
    and run: "scan_loop env root ign \<lparr>results = [], queue = [root], file_count = 0\<rparr> = Some (Inr st)"
    and w: "walk env ign root ns" "ns \<noteq> []"
  shows "rel_entry env root (chain root ns) \<in> set (results st) \<or> MAX_FILES \<le> file_count st"
proof -
  let ?I = "\<lambda>s. (\<forall>q\<in>set (queue s). isabs q) \<and> covered env root ign s"
  have "chain root (take 0 ns) = root"
    by (simp add: chain_def)
  then have init: "?I \<lparr>results = [], queue = [root], file_count = 0\<rparr>"
    using abs unfolding covered_def by (intro conjI allI impI disjI2 exI [of _ 0]) simp_all
  have stepI: "?I s'" if "?I s" "queue s \<noteq> []" "loop_body env root ign s = Inr s'" for s s'
    using that queue_isabs_step [of s env root ign s'] covered_step [OF _ proper, of s root ign s']
    by blast
  have "?I st \<and> (queue st = [] \<or> MAX_FILES \<le> file_count st)"
    using scan_loop_rule [OF run, of ?I] init stepI by blast
  then show ?thesis
    using w unfolding covered_def by auto
qed

lemma faulty_env_simps:
  "os_path_isdir (faulty_env e) p \<longleftrightarrow> p = ''/proj'' \<or> p = ''/proj/locked'' \<or> p = ''/proj/ok''"
  "os_listdir (faulty_env e) ''/proj/locked'' = Inl e"
  "os_listdir (faulty_env e) ''/proj'' = Inr [''z.txt'', ''ok'', ''locked'']"
  "os_listdir (faulty_env e) ''/proj/ok'' = Inr [''f.txt'']"
  "os_path_exists (faulty_env e) ''/proj''"
  by (auto simp: faulty_env_def tree_env_def Let_def)

lemma faulty_env_caught:
  "os_path_isdir (faulty_env e) p \<Longrightarrow> os_listdir (faulty_env e) p = Inl e' \<Longrightarrow> e' = e"
  by (auto simp: faulty_env_simps)

lemma faulty_env_proper: "proper_listings (faulty_env e)"
  unfolding proper_listings_def faulty_env_def tree_env_def Let_def
  by (auto simp: valid_name_def os_sep_def split: option.splits if_splits)

lemma faulty_env_enqueued:
  "enqueued (faulty_env e) [] ''/proj'' = [''/proj/locked'', ''/proj/ok'', ''/proj/z.txt'']"
  "enqueued (faulty_env e) [] ''/proj/ok'' = [''/proj/ok/f.txt'']"
  "enqueued (faulty_env PermissionError) [] ''/proj/locked'' = []"
  "\<not> os_path_isdir (faulty_env e) p \<Longrightarrow> enqueued (faulty_env e) [] p = []"
proof -
  have 1: "filter (\<lambda>q. \<not> should_skip q []) (sort (map (path_join ''/proj'') [''z.txt'', ''ok'', ''locked'']))
         = [''/proj/locked'', ''/proj/ok'', ''/proj/z.txt'']"
    by code_simp
  have 2: "filter (\<lambda>q. \<not> should_skip q []) (sort (map (path_join ''/proj/ok'') [''f.txt'']))
         = [''/proj/ok/f.txt'']"
    by code_simp
  show "enqueued (faulty_env e) [] ''/proj'' = [''/proj/locked'', ''/proj/ok'', ''/proj/z.txt'']"
    unfolding enqueued_def using 1 by (simp only: faulty_env_simps) simp
  show "enqueued (faulty_env e) [] ''/proj/ok'' = [''/proj/ok/f.txt'']"
    unfolding enqueued_def using 2 by (simp only: faulty_env_simps) simp
  show "enqueued (faulty_env PermissionError) [] ''/proj/locked'' = []"
    unfolding enqueued_def by (simp add: faulty_env_simps)
  show "\<not> os_path_isdir (faulty_env e) p \<Longrightarrow> enqueued (faulty_env e) [] p = []"
    by (simp add: enqueued_def)
qed

lemma faulty_env_rank:
  "\<forall>p. \<forall>c\<in>set (enqueued (faulty_env PermissionError) [] p).
      (if c = ''/proj'' then 2 else if c = ''/proj/ok'' then 1 else (0::nat))
      < (if p = ''/proj'' then 2 else if p = ''/proj/ok'' then 1 else 0)"
proof
  fix p
  consider "p = ''/proj''" | "p = ''/proj/ok''" | "p = ''/proj/locked''"
    | "\<not> os_path_isdir (faulty_env PermissionError) p"
    by (auto simp: faulty_env_simps)
  then show "\<forall>c\<in>set (enqueued (faulty_env PermissionError) [] p).
      (if c = ''/proj'' then 2 else if c = ''/proj/ok'' then 1 else (0::nat))
      < (if p = ''/proj'' then 2 else if p = ''/proj/ok'' then 1 else 0)"
  proof cases
    case 1
    then show ?thesis by (simp add: faulty_env_enqueued)
  next
    case 2
    then show ?thesis by (simp add: faulty_env_enqueued)
  next
    case 3
    then show ?thesis by (simp add: faulty_env_enqueued)
  next
    case 4
    then show ?thesis by (simp add: faulty_env_enqueued)
  qed
qed

lemma forward_Some:
  assumes "isabs path" "os_path_exists env path" "os_path_isdir env path"
    and "scan_loop env path ign \<lparr>results = [], queue = [path], file_count = 0\<rparr> = Some (Inr st)"
  shows "forward env path (Some ign) =
           Some (Inr ((if MAX_FILES \<le> length (sort (results st)) then TRUNCATED_MESSAGE else [])
                      @ print_tree (create_file_tree (sort (results st))) path 0 []))"
  using assms by (simp add: forward_def list_directory_def Let_def)

subsection \<open>The two failures of \<open>forward\<close>\<close>

text \<open>
  C3. When the resolved path (the path itself when it is absolute, its \<open>abspath\<close>
  otherwise) does not exist, \<open>forward\<close> returns the message that names it and says that
  it does not exist; when it exists and is not a directory, the message that says that it
  is not a directory. In both cases the result is the message alone, whatever
  \<open>os.listdir\<close> would answer: no directory is listed and no tree is printed.
\<close>

theorem forward_missing_or_not_directory:
  fixes env :: os_env and f :: "string \<Rightarrow> py_error + string list"
  defines "resolved path \<equiv> (if \<not> isabs path then abspath env path else path)"
  shows "(\<not> os_path_exists env (resolved path) \<longrightarrow>
           forward (env\<lparr>os_listdir := f\<rparr>) path ignore =
             Some (Inr (''Error: Path '' @ [CHR 0x27] @ resolved path @ [CHR 0x27]
                        @ '' does not exist'')))
       \<and> (os_path_exists env (resolved path) \<and> \<not> os_path_isdir env (resolved path) \<longrightarrow>
           forward (env\<lparr>os_listdir := f\<rparr>) path ignore =
             Some (Inr (''Error: Path '' @ [CHR 0x27] @ resolved path @ [CHR 0x27]
                        @ '' is not a directory'')))"
  by (simp add: forward_def resolved_def Let_def)

theorem forward_missing_or_not_directory_witness:
  "\<not> os_path_exists pycache_env ''/proj/none''
   \<and> forward (pycache_env\<lparr>os_listdir := (\<lambda>p. Inr [''a''])\<rparr>) ''/proj/none'' None =
       Some (Inr (''Error: Path '' @ [CHR 0x27] @ ''/proj/none'' @ [CHR 0x27] @ '' does not exist''))
   \<and> os_path_exists pycache_env ''/proj/foo__pycache__/x.py''
   \<and> \<not> os_path_isdir pycache_env ''/proj/foo__pycache__/x.py''
   \<and> forward (pycache_env\<lparr>os_listdir := (\<lambda>p. Inr [''a''])\<rparr>) ''proj/foo__pycache__/x.py'' None =
       Some (Inr (''Error: Path '' @ [CHR 0x27] @ ''/proj/foo__pycache__/x.py'' @ [CHR 0x27]
                  @ '' is not a directory''))"
proof -
  have missing: "\<not> os_path_exists pycache_env ''/proj/none''"
    by (simp add: pycache_env_def tree_env_def)
  have resolved: "abspath pycache_env ''proj/foo__pycache__/x.py'' = ''/proj/foo__pycache__/x.py''"
    by code_simp
  have is_file: "os_path_exists pycache_env ''/proj/foo__pycache__/x.py''"
    "\<not> os_path_isdir pycache_env ''/proj/foo__pycache__/x.py''"
    by (simp_all add: pycache_env_def tree_env_def)
  show ?thesis
    using forward_missing_or_not_directory
            [of pycache_env "''/proj/none''" "\<lambda>p. Inr [''a'']" None]
          forward_missing_or_not_directory
            [of pycache_env "''proj/foo__pycache__/x.py''" "\<lambda>p. Inr [''a'']" None]
          missing is_file
    by (simp add: isabs_def os_sep_def resolved)
qed

subsection \<open>The test for the bytecode cache\<close>

text \<open>
  C9. A path is skipped as soon as the string \<open>__pycache__/\<close> occurs anywhere in it,
  whatever stands before and after. So the file \<open>x.py\<close> in a directory named
  \<open>foo__pycache__\<close> is skipped, although no segment of its path is \<open>__pycache__\<close>, and
  the listing of the project shows the directory and not the file.
\<close>

theorem pycache_substring_skips_longer_segment:
  "should_skip (pre @ ''__pycache__/'' @ post) ignore_patterns
   \<and> should_skip ''/proj/foo__pycache__/x.py'' []
   \<and> ''__pycache__'' \<notin> set (str_split ''/proj/foo__pycache__/x.py'' CHR ''/'')
   \<and> \<not> should_skip ''/proj/foo__pycache__'' []
   \<and> forward pycache_env ''/proj'' None =
       Some (Inr (''- /proj/'' @ [CHR 0x0A] @ ''  - foo__pycache__/'' @ [CHR 0x0A]))"
proof -
  have "str_replace s os_sep CHR ''/'' = s" for s
    by (simp add: str_replace_def os_sep_def map_idI)
  then have "should_skip (pre @ ''__pycache__/'' @ post) ignore_patterns"
    using str_contains_append [of "''__pycache__/''" pre post]
    by (simp add: should_skip_def Let_def)
  moreover have "should_skip ''/proj/foo__pycache__/x.py'' []"
    by code_simp
  moreover have "''__pycache__'' \<notin> set (str_split ''/proj/foo__pycache__/x.py'' CHR ''/'')"
    by simp
  moreover have "\<not> should_skip ''/proj/foo__pycache__'' []"
    by code_simp
  moreover have "forward pycache_env ''/proj'' None =
       Some (Inr (''- /proj/'' @ [CHR 0x0A] @ ''  - foo__pycache__/'' @ [CHR 0x0A]))"
    by code_simp
  ultimately show ?thesis
    by blast
qed

subsection \<open>More files than the cap\<close>

text \<open>
  C2. Let the root be a directory that is not skipped and whose listing is 1200 distinct
  names, each of them the name of a file that is not skipped, and let there be no ignore
  patterns. Then \<open>_list_directory\<close> returns exactly 1000 entries, all of them names of
  these files, and \<open>forward\<close> returns the truncation message, which names the cap of
  1000 twice, then the line of the root, which ends in exactly one separator, then one
  line for each of the 1000 entries. Moreover one turn of the loop adds one
  to the file counter when it records a file, and leaves the counter as it is in every
  other case, in particular when it records a directory.
\<close>

theorem flat_directory_is_truncated:
  assumes root: "isabs root" "os_path_exists env root" "os_path_isdir env root"
      "\<not> should_skip root []"
    and listing: "os_listdir env root = Inr names" "length names = 1200" "distinct names"
    and files: "\<forall>n\<in>set names. valid_name n \<and> \<not> should_skip (path_join root n) []
                                \<and> \<not> os_path_isdir env (path_join root n)"
  shows "(\<exists>rs. list_directory env root [] = Some (Inr rs) \<and> length rs = 1000 \<and> distinct rs
              \<and> set rs \<subseteq> set names
              \<and> forward env root None =
                  Some (Inr (''There are more than 1000 files in the repository. Use the LS tool (passing a specific path), Bash tool, and other tools to explore nested directories. The first 1000 files and directories are included below:'' @ [CHR 0x0A, CHR 0x0A]
                             @ ''- '' @ rstrip root os_sep @ ''/'' @ [CHR 0x0A]
                             @ concat (map (\<lambda>r. ''  - '' @ r @ [CHR 0x0A]) rs))))
       \<and> \<not> endswith (rstrip root os_sep) ''/''
       \<and> (\<forall>s p rest s' ign. queue s = p # rest \<longrightarrow> loop_body env root ign s = Inr s' \<longrightarrow>
             file_count s' = file_count s
               + (if \<not> should_skip p ign \<and> p \<noteq> root \<and> \<not> os_path_isdir env p then 1 else 0))"
proof -
  let ?qs = "sort (map (path_join root) names)"
  have root_ne: "root \<noteq> []"
    using root(1) by (auto simp: isabs_iff)
  have set_qs: "set ?qs = path_join root ` set names"
    by simp
  have enq: "enqueued env [] root = ?qs"
    using root(3) listing(1) files by (auto simp: enqueued_def filter_id_conv)
  have no_raise: "\<forall>e. \<not> listing_raises env root e"
    using listing(1) by (simp add: listing_raises_def)
  have leaf: "\<forall>q\<in>set ?qs. q \<noteq> [] \<and> q \<noteq> root \<and> \<not> should_skip q [] \<and> \<not> os_path_isdir env q"
  proof
    fix q assume "q \<in> set ?qs"
    then obtain n where n: "n \<in> set names" "q = path_join root n"
      by auto
    then have "isabs q"
      using root(1) by (simp add: isabs_path_join)
    then have "q \<noteq> []"
      by (auto simp: isabs_iff)
    moreover have "q \<noteq> root"
      using n files by (simp add: path_join_neq)
    ultimately show "q \<noteq> [] \<and> q \<noteq> root \<and> \<not> should_skip q [] \<and> \<not> os_path_isdir env q"
      using n files by simp
  qed
  have entry: "rel_entry env root (path_join root n) = n" if "n \<in> set names" for n
    using that files root(1) by (simp add: rel_entry_child)
  let ?res = "map (rel_entry env root) (take 1000 ?qs)"
  have run: "scan_loop env root [] \<lparr>results = [], queue = [root], file_count = 0\<rparr>
        = Some (Inr \<lparr>results = ?res, queue = drop 1000 ?qs, file_count = min (length ?qs) 1000\<rparr>)"
    using scan_files [OF leaf, of "\<lparr>results = [], queue = ?qs, file_count = 0\<rparr>"]
      scan_root [OF root_ne root(4) no_raise]
    by (simp add: enq MAX_FILES_def)
  let ?rs = "sort ?res"
  have ld: "list_directory env root [] = Some (Inr ?rs)"
    by (simp add: list_directory_def run)
  have len: "length ?rs = 1000"
    using listing(2) by simp
  have inj: "inj_on (path_join root) (set names)"
    using files by (intro inj_onI) (auto dest: path_join_inj)
  have dqs: "distinct ?qs"
    using listing(3) inj by (simp add: distinct_map)
  have sub: "set (take 1000 ?qs) \<subseteq> path_join root ` set names"
    using set_take_subset [of 1000 ?qs] set_qs by simp
  have "inj_on (rel_entry env root) (set (take 1000 ?qs))"
  proof (rule inj_onI)
    fix a b assume a: "a \<in> set (take 1000 ?qs)" and b: "b \<in> set (take 1000 ?qs)"
      and eq: "rel_entry env root a = rel_entry env root b"
    obtain n m where "n \<in> set names" "a = path_join root n" "m \<in> set names" "b = path_join root m"
      using a b sub by blast
    with eq entry show "a = b"
      by simp
  qed
  then have dist: "distinct ?rs"
    using dqs by (simp add: distinct_map)
  have subset: "set ?rs \<subseteq> set names"
    using sub entry by auto
  have valid: "\<forall>r\<in>set ?rs. r \<noteq> [] \<and> os_sep \<notin> set r"
    using subset files by (auto simp: valid_name_def)
  have tree: "create_file_tree ?rs = map (\<lambda>r. Node r r File None) ?rs"
    using dist valid by (rule create_file_tree_files)
  have fwd: "forward env root None =
      Some (Inr (TRUNCATED_MESSAGE @ ''- '' @ rstrip root os_sep @ ''/'' @ [CHR 0x0A]
                 @ concat (map (\<lambda>r. ''  - '' @ r @ [CHR 0x0A]) ?rs)))"
    using root(1,2,3) len
    by (simp add: forward_def ld tree print_tree_files MAX_FILES_def del: length_sort)
  have first: "\<exists>rs. list_directory env root [] = Some (Inr rs) \<and> length rs = 1000 \<and> distinct rs
              \<and> set rs \<subseteq> set names
              \<and> forward env root None =
                  Some (Inr (TRUNCATED_MESSAGE
                             @ ''- '' @ rstrip root os_sep @ ''/'' @ [CHR 0x0A]
                             @ concat (map (\<lambda>r. ''  - '' @ r @ [CHR 0x0A]) rs)))"
    using ld len dist subset fwd by blast
  show ?thesis
  proof (intro conjI)
    show "\<exists>rs. list_directory env root [] = Some (Inr rs) \<and> length rs = 1000 \<and> distinct rs
              \<and> set rs \<subseteq> set names
              \<and> forward env root None =
                  Some (Inr (''There are more than 1000 files in the repository. Use the LS tool (passing a specific path), Bash tool, and other tools to explore nested directories. The first 1000 files and directories are included below:'' @ [CHR 0x0A, CHR 0x0A]
                             @ ''- '' @ rstrip root os_sep @ ''/'' @ [CHR 0x0A]
                             @ concat (map (\<lambda>r. ''  - '' @ r @ [CHR 0x0A]) rs)))"
      using first by (simp add: TRUNCATED_MESSAGE_text)
    show "\<not> endswith (rstrip root os_sep) ''/''"
      by (rule rstrip_no_slash)
    show "\<forall>s p rest s' ign. queue s = p # rest \<longrightarrow> loop_body env root ign s = Inr s' \<longrightarrow>
             file_count s' = file_count s
               + (if \<not> should_skip p ign \<and> p \<noteq> root \<and> \<not> os_path_isdir env p then 1 else 0)"
      using loop_body_file_count by blast
  qed
qed

theorem flat_directory_is_truncated_witness:
  "\<exists>rs. list_directory flat_files_env ''/data'' [] = Some (Inr rs) \<and> length rs = 1000 \<and> distinct rs
       \<and> set rs \<subseteq> set (map (numbered CHR ''f'') [0..<1200])
       \<and> forward flat_files_env ''/data'' None =
           Some (Inr (''There are more than 1000 files in the repository. Use the LS tool (passing a specific path), Bash tool, and other tools to explore nested directories. The first 1000 files and directories are included below:'' @ [CHR 0x0A, CHR 0x0A]
                      @ ''- /data/'' @ [CHR 0x0A]
                      @ concat (map (\<lambda>r. ''  - '' @ r @ [CHR 0x0A]) rs)))"
proof -
  let ?names = "map (numbered CHR ''f'') [0..<1200]"
  have 1: "isabs ''/data''"
    by (simp add: isabs_def os_sep_def)
  have 2: "os_path_exists flat_files_env ''/data''" "os_path_isdir flat_files_env ''/data''"
    by (simp_all add: flat_files_env_def tree_env_def)
  have 3: "\<not> should_skip ''/data'' []"
    by code_simp
  have 4: "os_listdir flat_files_env ''/data'' = Inr ?names"
    by (simp add: flat_files_env_def tree_env_def)
  have 5: "length ?names = 1200"
    by simp
  have 6: "distinct ?names"
    by (rule distinct_numbered) simp
  have 7: "\<forall>n\<in>set ?names. valid_name n \<and> \<not> should_skip (path_join ''/data'' n) []
             \<and> \<not> os_path_isdir flat_files_env (path_join ''/data'' n)"
  proof
    fix x assume "x \<in> set ?names"
    then obtain n where x: "x = numbered CHR ''f'' n"
      by auto
    have v: "valid_name x"
      unfolding x by (rule valid_name_numbered) simp
    moreover have "\<not> should_skip (path_join ''/data'' x) []"
      unfolding x by (rule not_skipped_numbered) simp_all
    moreover have "path_join ''/data'' x \<noteq> ''/data''"
      using v by (rule path_join_neq)
    then have "\<not> os_path_isdir flat_files_env (path_join ''/data'' x)"
      by (simp add: flat_files_env_def tree_env_def)
    ultimately show "valid_name x \<and> \<not> should_skip (path_join ''/data'' x) []
             \<and> \<not> os_path_isdir flat_files_env (path_join ''/data'' x)"
      by simp
  qed
  have 8: "rstrip ''/data'' os_sep = ''/data''"
    by (simp add: rstrip_def os_sep_def)
  show ?thesis
    using flat_directory_is_truncated [OF 1 2 3 4 5 6 7] 8 by simp
qed

subsection \<open>Fewer files than the cap\<close>

text \<open>
  C1. The claim: below 1000 files the listing is complete, the result is not marked as
  truncated and no banner is printed, however many directories there are. The loop stops
  on the counter of files, but \<open>forward\<close> computes \<open>truncated\<close> from the number of all
  entries. In a directory with 1000 empty subdirectories and no file the loop ends with an
  empty queue and a counter of 0: all 1000 entries are directories and nothing was left
  out. Still \<open>forward\<close> puts the message in front, which says that there are more than
  1000 files.
\<close>

theorem directories_alone_raise_the_banner:
  "\<exists>res. scan_loop many_dirs_env ''/data'' [] \<lparr>results = [], queue = [''/data''], file_count = 0\<rparr>
            = Some (Inr \<lparr>results = res, queue = [], file_count = 0\<rparr>)
       \<and> length res = 1000 \<and> list_all (\<lambda>r. endswith r ''/'') res
       \<and> list_directory many_dirs_env ''/data'' [] = Some (Inr (sort res))
       \<and> forward many_dirs_env ''/data'' None =
           Some (Inr (TRUNCATED_MESSAGE @ print_tree (create_file_tree (sort res)) ''/data'' 0 []))"
proof -
  let ?names = "map (numbered CHR ''d'') [0..<1000]"
  let ?qs = "sort (map (path_join ''/data'') ?names)"
  let ?res = "map (rel_entry many_dirs_env ''/data'') ?qs"
  have abs: "isabs ''/data''"
    by (simp add: isabs_def os_sep_def)
  have root: "os_path_exists many_dirs_env ''/data''" "os_path_isdir many_dirs_env ''/data''"
    "os_listdir many_dirs_env ''/data'' = Inr ?names"
    by (simp_all add: many_dirs_env_def tree_env_def)
  have skip: "\<not> should_skip ''/data'' []"
    by code_simp
  have child: "valid_name x \<and> \<not> should_skip (path_join ''/data'' x) []
               \<and> path_join ''/data'' x \<noteq> [] \<and> path_join ''/data'' x \<noteq> ''/data''
               \<and> os_path_isdir many_dirs_env (path_join ''/data'' x)
               \<and> os_listdir many_dirs_env (path_join ''/data'' x) = Inr []"
    if "x \<in> set ?names" for x
  proof -
    have "x \<in> numbered CHR ''d'' ` set [0..<1000]"
      using that by simp
    then obtain n where n: "x = numbered CHR ''d'' n" "n \<in> set [0..<1000]"
      by blast
    have v: "valid_name x"
      unfolding n by (rule valid_name_numbered) simp
    have ns: "\<not> should_skip (path_join ''/data'' x) []"
      unfolding n by (rule not_skipped_numbered) simp_all
    have ne: "path_join ''/data'' x \<noteq> ''/data''"
      using v by (rule path_join_neq)
    have "isabs (path_join ''/data'' x)"
      using abs by (rule isabs_path_join)
    then have ne2: "path_join ''/data'' x \<noteq> []"
      by (auto simp: isabs_iff)
    define sub where "sub = map (\<lambda>n. (path_join ''/data'' (numbered CHR ''d'' n), [] :: string list)) [0..<1000]"
    have "map_of sub (path_join ''/data'' (numbered CHR ''d'' n)) = Some []"
      unfolding sub_def using n(2) by (rule map_of_map_const)
    moreover have env: "many_dirs_env = tree_env ((''/data'', ?names) # sub) []"
      by (simp only: many_dirs_env_def sub_def)
    ultimately have "os_path_isdir many_dirs_env (path_join ''/data'' x)"
      "os_listdir many_dirs_env (path_join ''/data'' x) = Inr []"
      unfolding env using ne by (simp_all add: tree_env_def n(1))
    with v ns ne ne2 show ?thesis
      by simp
  qed
  have enq: "enqueued many_dirs_env [] ''/data'' = ?qs"
    using root child by (auto simp: enqueued_def filter_id_conv)
  have leaf: "\<forall>q\<in>set ?qs. q \<noteq> [] \<and> q \<noteq> ''/data'' \<and> \<not> should_skip q []
                \<and> os_path_isdir many_dirs_env q \<and> os_listdir many_dirs_env q = Inr []"
    using child by auto
  have no_raise: "\<forall>e. \<not> listing_raises many_dirs_env ''/data'' e"
    using root(3) by (simp add: listing_raises_def)
  have run: "scan_loop many_dirs_env ''/data'' [] \<lparr>results = [], queue = [''/data''], file_count = 0\<rparr>
        = Some (Inr \<lparr>results = ?res, queue = [], file_count = 0\<rparr>)"
    using scan_empty_dirs [OF leaf, of "\<lparr>results = [], queue = ?qs, file_count = 0\<rparr>"]
      scan_root [OF _ skip no_raise]
    by (simp add: enq MAX_FILES_def)
  have len: "length ?res = 1000"
    by simp
  have "endswith (rel_entry many_dirs_env ''/data'' q) ''/''" if "q \<in> set ?qs" for q
  proof -
    have "q \<in> path_join ''/data'' ` set ?names"
      using that by (simp add: image_image)
    then obtain x where x: "x \<in> set ?names" "q = path_join ''/data'' x"
      by blast
    then have "rel_entry many_dirs_env ''/data'' q = x @ ''/''"
      using child [OF x(1)] abs by (simp add: rel_entry_child)
    then show ?thesis
      by (simp add: endswith_def)
  qed
  then have dirs: "list_all (\<lambda>r. endswith r ''/'') ?res"
    by (simp add: list_all_iff)
  have ld: "list_directory many_dirs_env ''/data'' [] = Some (Inr (sort ?res))"
    by (simp add: list_directory_def run)
  have "forward many_dirs_env ''/data'' None =
           Some (Inr (TRUNCATED_MESSAGE @ print_tree (create_file_tree (sort ?res)) ''/data'' 0 []))"
    using abs root(1,2) by (simp add: forward_def ld MAX_FILES_def Let_def)
  with run len dirs ld show ?thesis
    by blast
qed

subsection \<open>A small tree\<close>

text \<open>
  C8. Let the root be a directory that is not skipped and that holds the file \<open>a.txt\<close>
  and the directory \<open>b\<close>, which holds the file \<open>c.txt\<close>, none of them skipped, and let
  there be no ignore patterns. Then \<open>_list_directory\<close> returns \<open>a.txt\<close>, \<open>b/\<close> and
  \<open>b/c.txt\<close>, and \<open>forward\<close> returns four lines: behind the marker and without
  indentation, the root path without the separators at its end and then one separator
  (the witness has a root with two separators at its end); \<open>- a.txt\<close> and \<open>- b/\<close>
  behind two spaces; \<open>- c.txt\<close> behind four.
\<close>

theorem scenario_small_tree:
  assumes root: "isabs root" "os_path_exists env root" "os_path_isdir env root"
      "\<not> should_skip root []"
    and items: "os_listdir env root = Inr items" "distinct items" "set items = {''a.txt'', ''b''}"
    and a: "\<not> should_skip (path_join root ''a.txt'') []"
      "\<not> os_path_isdir env (path_join root ''a.txt'')"
    and b: "\<not> should_skip (path_join root ''b'') []" "os_path_isdir env (path_join root ''b'')"
      "os_listdir env (path_join root ''b'') = Inr [''c.txt'']"
    and c: "\<not> should_skip (path_join (path_join root ''b'') ''c.txt'') []"
      "\<not> os_path_isdir env (path_join (path_join root ''b'') ''c.txt'')"
  shows "list_directory env root [] = Some (Inr [''a.txt'', ''b/'', ''b/c.txt''])
       \<and> forward env root None =
           Some (Inr (''- '' @ rstrip root os_sep @ ''/'' @ [CHR 0x0A]
                      @ ''  - a.txt'' @ [CHR 0x0A]
                      @ ''  - b/'' @ [CHR 0x0A]
                      @ ''    - c.txt'' @ [CHR 0x0A]))
       \<and> \<not> endswith (rstrip root os_sep) ''/''"
proof -
  let ?pa = "path_join root ''a.txt''" and ?pb = "path_join root ''b''"
  let ?pc = "path_join (path_join root ''b'') ''c.txt''"
  note valid = valid_name_examples
  have root_ne: "root \<noteq> []"
    using root(1) by (auto simp: isabs_iff)
  have "isabs ?pa" "isabs ?pb" "isabs ?pc"
    using root(1) by (simp_all add: isabs_path_join)
  then have ne: "?pa \<noteq> []" "?pb \<noteq> []" "?pc \<noteq> []"
    by (auto simp: isabs_iff)
  have neq: "?pa \<noteq> root" "?pb \<noteq> root"
    using valid by (simp_all add: path_join_neq)
  have "?pc = chain root [''b'', ''c.txt'']"
    by (simp add: chain_def)
  then have ec: "rel_entry env root ?pc = ''b/c.txt''"
    using rel_entry_chain [of root "[''b'', ''c.txt'']" env] root(1) valid c(2)
    by (simp add: os_sep_def)
  have "length ?pc > length root"
    using valid by (auto simp: path_join_valid)
  then have neqc: "?pc \<noteq> root"
    by auto
  have ea: "rel_entry env root ?pa = ''a.txt''" and eb: "rel_entry env root ?pb = ''b/''"
    using root(1) valid a(2) b(2) by (simp_all add: rel_entry_child)
  have "?pa < ?pb"
    using valid by (intro path_join_less) simp_all
  then have "sort [?pa, ?pb] = [?pa, ?pb]" "sort [?pb, ?pa] = [?pa, ?pb]"
    by auto
  moreover have "items = [''a.txt'', ''b''] \<or> items = [''b'', ''a.txt'']"
    using items(2,3) by (intro two_names) simp_all
  ultimately have "sort (map (path_join root) items) = [?pa, ?pb]"
    by auto
  then have enq_root: "enqueued env [] root = [?pa, ?pb]"
    using root(3) items(1) a(1) b(1) by (simp add: enqueued_def)
  have enq_a: "enqueued env [] ?pa = []" and enq_c: "enqueued env [] ?pc = []"
    using a(2) c(2) by (simp_all add: enqueued_def)
  have enq_b: "enqueued env [] ?pb = [?pc]"
    using b(2,3) c(1) by (simp add: enqueued_def)
  have nr: "\<forall>e. \<not> listing_raises env root e" "\<forall>e. \<not> listing_raises env ?pa e"
    "\<forall>e. \<not> listing_raises env ?pb e" "\<forall>e. \<not> listing_raises env ?pc e"
    using items(1) a(2) b(3) c(2) by (simp_all add: listing_raises_def)
  have "scan_loop env root [] \<lparr>results = [], queue = [root], file_count = 0\<rparr>
        = scan_loop env root [] \<lparr>results = [], queue = [?pa, ?pb], file_count = 0\<rparr>"
    using scan_root [OF root_ne root(4) nr(1)] by (simp add: enq_root)
  also have "\<dots> = scan_loop env root [] \<lparr>results = [''a.txt''], queue = [?pb], file_count = 1\<rparr>"
    using scan_visit [of "\<lparr>results = [], queue = [?pa, ?pb], file_count = 0\<rparr>" ?pa "[?pb]" "[]" env root]
      a ne(1) nr(2) neq(1)
    by (simp add: MAX_FILES_def ea enq_a)
  also have "\<dots> = scan_loop env root [] \<lparr>results = [''a.txt'', ''b/''], queue = [?pc], file_count = 1\<rparr>"
    using scan_visit [of "\<lparr>results = [''a.txt''], queue = [?pb], file_count = 1\<rparr>" ?pb "[]" "[]" env root]
      b ne(2) nr(3) neq(2)
    by (simp add: MAX_FILES_def eb enq_b)
  also have "\<dots> = scan_loop env root []
                     \<lparr>results = [''a.txt'', ''b/'', ''b/c.txt''], queue = [], file_count = 2\<rparr>"
    using scan_visit [of "\<lparr>results = [''a.txt'', ''b/''], queue = [?pc], file_count = 1\<rparr>" ?pc "[]" "[]" env root]
      c ne(3) nr(4) neqc
    by (simp add: MAX_FILES_def ec enq_c numeral_2_eq_2)
  also have "\<dots> = Some (Inr \<lparr>results = [''a.txt'', ''b/'', ''b/c.txt''], queue = [], file_count = 2\<rparr>)"
    by (simp add: scan_loop_done)
  finally have ld: "list_directory env root [] = Some (Inr [''a.txt'', ''b/'', ''b/c.txt''])"
    by (simp add: list_directory_def)
  have tree: "create_file_tree [''a.txt'', ''b/'', ''b/c.txt'']
        = [Node ''a.txt'' ''a.txt'' File None,
           Node ''b'' ''b'' Directory (Some [Node ''c.txt'' ''b/c.txt'' File None])]"
    by code_simp
  have "forward env root None =
           Some (Inr (''- '' @ rstrip root os_sep @ ''/'' @ [CHR 0x0A]
                      @ ''  - a.txt'' @ [CHR 0x0A]
                      @ ''  - b/'' @ [CHR 0x0A]
                      @ ''    - c.txt'' @ [CHR 0x0A]))"
    using root(1,2,3)
    by (simp add: forward_def ld tree print_tree_root MAX_FILES_def Let_def)
  with ld show ?thesis
    using rstrip_no_slash [of root] by simp
qed

theorem scenario_small_tree_witness:
  "list_directory small_tree_env ''/proj//'' [] = Some (Inr [''a.txt'', ''b/'', ''b/c.txt''])
   \<and> forward small_tree_env ''/proj//'' None =
       Some (Inr (''- /proj/'' @ [CHR 0x0A]
                  @ ''  - a.txt'' @ [CHR 0x0A]
                  @ ''  - b/'' @ [CHR 0x0A]
                  @ ''    - c.txt'' @ [CHR 0x0A]))"
proof -
  have 1: "isabs ''/proj//''" "\<not> should_skip ''/proj//'' []"
    by code_simp+
  have 2: "os_path_exists small_tree_env ''/proj//''" "os_path_isdir small_tree_env ''/proj//''"
    "os_listdir small_tree_env ''/proj//'' = Inr [''b'', ''a.txt'']"
    by (simp_all add: small_tree_env_def tree_env_def)
  have 3: "distinct [''b'', ''a.txt'']" "set [''b'', ''a.txt''] = {''a.txt'', ''b''}"
    by auto
  have j: "path_join ''/proj//'' ''a.txt'' = ''/proj//a.txt''" "path_join ''/proj//'' ''b'' = ''/proj//b''"
    "path_join ''/proj//b'' ''c.txt'' = ''/proj//b/c.txt''"
    by code_simp+
  have 4: "\<not> should_skip ''/proj//a.txt'' []" "\<not> should_skip ''/proj//b'' []"
    "\<not> should_skip ''/proj//b/c.txt'' []"
    by code_simp+
  have 5: "\<not> os_path_isdir small_tree_env ''/proj//a.txt''" "os_path_isdir small_tree_env ''/proj//b''"
    "os_listdir small_tree_env ''/proj//b'' = Inr [''c.txt'']"
    "\<not> os_path_isdir small_tree_env ''/proj//b/c.txt''"
    by (simp_all add: small_tree_env_def tree_env_def)
  have 6: "rstrip ''/proj//'' os_sep = ''/proj''"
    by code_simp
  show ?thesis
    using scenario_small_tree [of "''/proj//''" small_tree_env "[''b'', ''a.txt'']"] 1 2 3 4 5
    by (simp add: j 6)
qed

subsection \<open>What the ignore patterns are matched against\<close>

text \<open>
  C10. When the current directory is absolute, the path \<open>forward\<close> starts from is
  absolute, every path joined to an absolute path is absolute, and one turn of the loop
  keeps every path on the queue absolute: the patterns are only ever matched against
  absolute paths. A pattern that begins with a character other than \<open>*\<close>, \<open>?\<close>, \<open>[\<close> and
  the separator matches no absolute path, so adding it to the ignore list changes nothing
  of the result of \<open>forward\<close>. A pattern that begins with a star matches across
  separators. In the small project, the patterns \<open>a.txt\<close> (a base name) and \<open>b/c.txt\<close>
  (a path relative to the root) exclude nothing, the absolute path of \<open>a.txt\<close> as
  pattern excludes that file, and \<open>*.txt\<close> excludes both files, the one in the
  subdirectory too.
\<close>

theorem ignore_patterns_match_absolute_paths:
  assumes cwd: "isabs (os_getcwd env)"
    and head: "c \<notin> {CHR ''*'', CHR ''?'', CHR ''['', CHR ''/''}"
  shows "(\<forall>p. isabs p \<longrightarrow> \<not> fnmatch p (c # pat))
       \<and> forward env path (Some ((c # pat) # ign)) = forward env path (Some ign)
       \<and> ((\<forall>q\<in>set (queue s). isabs q) \<and> queue s \<noteq> [] \<and> loop_body env root ign s = Inr s'
            \<longrightarrow> (\<forall>q\<in>set (queue s'). isabs q))
       \<and> (isabs root \<longrightarrow> isabs (path_join root item))
       \<and> fnmatch (dir @ ''/app.log'') ''*.log''
       \<and> forward small_tree_env ''/proj//'' (Some [''a.txt'']) =
           Some (Inr (''- /proj/'' @ [CHR 0x0A] @ ''  - a.txt'' @ [CHR 0x0A]
                      @ ''  - b/'' @ [CHR 0x0A] @ ''    - c.txt'' @ [CHR 0x0A]))
       \<and> forward small_tree_env ''/proj//'' (Some [''b/c.txt'']) =
           Some (Inr (''- /proj/'' @ [CHR 0x0A] @ ''  - a.txt'' @ [CHR 0x0A]
                      @ ''  - b/'' @ [CHR 0x0A] @ ''    - c.txt'' @ [CHR 0x0A]))
       \<and> forward small_tree_env ''/proj//'' (Some [''/proj//a.txt'']) =
           Some (Inr (''- /proj/'' @ [CHR 0x0A] @ ''  - b/'' @ [CHR 0x0A]
                      @ ''    - c.txt'' @ [CHR 0x0A]))
       \<and> forward small_tree_env ''/proj//'' (Some [''*.txt'']) =
           Some (Inr (''- /proj/'' @ [CHR 0x0A] @ ''  - b/'' @ [CHR 0x0A]))"
proof (intro conjI)
  show never: "\<forall>p. isabs p \<longrightarrow> \<not> fnmatch p (c # pat)"
    using no_match_absolute [OF _ head] by blast
  have "should_skip p ((c # pat) # ign) = should_skip p ign" if "isabs p" for p
    using that never by (simp add: should_skip_Cons)
  then show "forward env path (Some ((c # pat) # ign)) = forward env path (Some ign)"
    using cwd by (rule forward_agree)
  show "(\<forall>q\<in>set (queue s). isabs q) \<and> queue s \<noteq> [] \<and> loop_body env root ign s = Inr s'
            \<longrightarrow> (\<forall>q\<in>set (queue s'). isabs q)"
    using queue_isabs_step [of s env root ign s'] by blast
  show "isabs root \<longrightarrow> isabs (path_join root item)"
    by (simp add: isabs_path_join)
  have "fnmatch ''.log'' ''.log''"
    by simp
  then have "fnmatch ((dir @ ''/app'') @ ''.log'') (CHR ''*'' # ''.log'')"
    by (rule fnmatch_star)
  then show "fnmatch (dir @ ''/app.log'') ''*.log''"
    by simp
  show "forward small_tree_env ''/proj//'' (Some [''a.txt'']) =
           Some (Inr (''- /proj/'' @ [CHR 0x0A] @ ''  - a.txt'' @ [CHR 0x0A]
                      @ ''  - b/'' @ [CHR 0x0A] @ ''    - c.txt'' @ [CHR 0x0A]))"
    by code_simp
  show "forward small_tree_env ''/proj//'' (Some [''b/c.txt'']) =
           Some (Inr (''- /proj/'' @ [CHR 0x0A] @ ''  - a.txt'' @ [CHR 0x0A]
                      @ ''  - b/'' @ [CHR 0x0A] @ ''    - c.txt'' @ [CHR 0x0A]))"
    by code_simp
  show "forward small_tree_env ''/proj//'' (Some [''/proj//a.txt'']) =
           Some (Inr (''- /proj/'' @ [CHR 0x0A] @ ''  - b/'' @ [CHR 0x0A]
                      @ ''    - c.txt'' @ [CHR 0x0A]))"
    by code_simp
  show "forward small_tree_env ''/proj//'' (Some [''*.txt'']) =
           Some (Inr (''- /proj/'' @ [CHR 0x0A] @ ''  - b/'' @ [CHR 0x0A]))"
    by code_simp
qed

theorem ignore_patterns_match_absolute_paths_witness:
  "isabs (os_getcwd small_tree_env)
   \<and> CHR ''a'' \<notin> {CHR ''*'', CHR ''?'', CHR ''['', CHR ''/''}
   \<and> isabs ''/proj//a.txt'' \<and> \<not> fnmatch ''/proj//a.txt'' ''a.txt''
   \<and> forward small_tree_env ''/proj//'' (Some [''a.txt'']) = forward small_tree_env ''/proj//'' (Some [])"
proof -
  have 1: "isabs (os_getcwd small_tree_env)"
    by (simp add: small_tree_env_def tree_env_def isabs_def os_sep_def)
  have 2: "CHR ''a'' \<notin> {CHR ''*'', CHR ''?'', CHR ''['', CHR ''/''}"
    by simp
  have 3: "isabs ''/proj//a.txt''"
    by (simp add: isabs_def os_sep_def)
  show ?thesis
    using ignore_patterns_match_absolute_paths
            [OF 1 2, of "''.txt''" "''/proj//''" "[]"] 1 2 3
    by simp
qed

subsection \<open>Hidden entries\<close>

text \<open>
  C4. A path whose base name, after its trailing separators are stripped, begins with a
  dot and is not the single dot is skipped, whatever the ignore patterns are. Every entry
  that \<open>_list_directory\<close> returns for an absolute root is the entry of a path reached from
  the root by names none of whose prefixes, the root included, is such a path. When
  \<open>os.listdir\<close> returns proper names only, a path of proper names below the root with a
  hidden prefix (the path itself or a directory above it) has no entry in the result,
  neither as a file nor as a directory; and a joined path is hidden exactly when the name
  joined begins with a dot. In the project with \<open>.git/\<close>, \<open>.env\<close>, \<open>README.md\<close> and \<open>src/\<close>
  holding \<open>.cache/\<close> and \<open>main.py\<close>, the listing shows \<open>README.md\<close>, \<open>src/\<close> and \<open>main.py\<close>
  only, with and without ignore patterns, and the listing of the hidden directory
  \<open>.git\<close> itself shows the root line alone.
\<close>

theorem hidden_entries_are_absent:
  assumes abs: "isabs root" and run: "list_directory env root ign = Some (Inr rs)"
  shows "(is_hidden p \<longrightarrow> should_skip p ign')
       \<and> (\<forall>e\<in>set rs. \<exists>ms. ms \<noteq> [] \<and> e = rel_entry env root (chain root ms)
              \<and> (\<forall>j. \<not> is_hidden (chain root (take j ms))))
       \<and> (proper_listings env \<and> ns \<noteq> [] \<and> (\<forall>n\<in>set ns. valid_name n)
            \<and> is_hidden (chain root (take k ns))
          \<longrightarrow> rel_entry env root (chain root ns) \<notin> set rs
              \<and> str_join os_sep ns \<notin> set rs \<and> str_join os_sep ns @ ''/'' \<notin> set rs)
       \<and> (valid_name x \<longrightarrow> is_hidden (path_join q x) = startswith x ''.'')
       \<and> is_hidden ''/proj/.git'' \<and> is_hidden ''/proj/.env//'' \<and> is_hidden ''..''
       \<and> \<not> is_hidden ''/proj/.'' \<and> \<not> is_hidden ''.'' \<and> \<not> is_hidden ''/proj/README.md''
       \<and> \<not> is_hidden ''/proj/.git/config''
       \<and> forward hidden_env ''/proj'' None =
           Some (Inr (''- /proj/'' @ [CHR 0x0A] @ ''  - README.md'' @ [CHR 0x0A]
                      @ ''  - src/'' @ [CHR 0x0A] @ ''    - main.py'' @ [CHR 0x0A]))
       \<and> forward hidden_env ''/proj'' (Some [''*.md'']) =
           Some (Inr (''- /proj/'' @ [CHR 0x0A]
                      @ ''  - src/'' @ [CHR 0x0A] @ ''    - main.py'' @ [CHR 0x0A]))
       \<and> forward hidden_env ''/proj/.git'' None = Some (Inr (''- /proj/.git/'' @ [CHR 0x0A]))"
proof (intro conjI)
  show "is_hidden p \<longrightarrow> should_skip p ign'"
    by (simp add: is_hidden_should_skip)
  show "\<forall>e\<in>set rs. \<exists>ms. ms \<noteq> [] \<and> e = rel_entry env root (chain root ms)
              \<and> (\<forall>j. \<not> is_hidden (chain root (take j ms)))"
  proof
    fix e
    assume "e \<in> set rs"
    with abs run obtain ms where ms: "ms \<noteq> []" "walk env ign root ms"
      "e = rel_entry env root (chain root ms)"
      using list_directory_traced by blast
    have "\<not> is_hidden (chain root (take j ms))" for j
      using walk_not_skipped [OF ms(2), of j] is_hidden_should_skip by blast
    with ms(1,3) show "\<exists>ms. ms \<noteq> [] \<and> e = rel_entry env root (chain root ms)
              \<and> (\<forall>j. \<not> is_hidden (chain root (take j ms)))"
      by blast
  qed
  show "proper_listings env \<and> ns \<noteq> [] \<and> (\<forall>n\<in>set ns. valid_name n)
            \<and> is_hidden (chain root (take k ns))
          \<longrightarrow> rel_entry env root (chain root ns) \<notin> set rs
              \<and> str_join os_sep ns \<notin> set rs \<and> str_join os_sep ns @ ''/'' \<notin> set rs"
  proof
    assume a: "proper_listings env \<and> ns \<noteq> [] \<and> (\<forall>n\<in>set ns. valid_name n)
            \<and> is_hidden (chain root (take k ns))"
    then have skip: "should_skip (chain root (take k ns)) ign"
      by (simp add: is_hidden_should_skip)
    have 1: "str_join os_sep ns @ [] \<notin> set rs"
      using abs _ run _ _ skip by (rule skipped_absent) (use a in simp_all)
    have 2: "str_join os_sep ns @ ''/'' \<notin> set rs"
      using abs _ run _ _ skip by (rule skipped_absent) (use a in simp_all)
    have "rel_entry env root (chain root ns)
         = str_join os_sep ns @ (if os_path_isdir env (chain root ns) then ''/'' else [])"
      using abs a by (intro rel_entry_chain) simp_all
    with 1 2 show "rel_entry env root (chain root ns) \<notin> set rs
              \<and> str_join os_sep ns \<notin> set rs \<and> str_join os_sep ns @ ''/'' \<notin> set rs"
      by simp
  qed
  show "valid_name x \<longrightarrow> is_hidden (path_join q x) = startswith x ''.''"
    by (auto simp: is_hidden_def basename_rstrip_path_join valid_name_def)
  show "is_hidden ''/proj/.git''" by code_simp
  show "is_hidden ''/proj/.env//''" by code_simp
  show "is_hidden ''..''" by code_simp
  show "\<not> is_hidden ''/proj/.''" by code_simp
  show "\<not> is_hidden ''.''" by code_simp
  show "\<not> is_hidden ''/proj/README.md''" by code_simp
  show "\<not> is_hidden ''/proj/.git/config''" by code_simp
  show "forward hidden_env ''/proj'' None =
           Some (Inr (''- /proj/'' @ [CHR 0x0A] @ ''  - README.md'' @ [CHR 0x0A]
                      @ ''  - src/'' @ [CHR 0x0A] @ ''    - main.py'' @ [CHR 0x0A]))"
    by code_simp
  show "forward hidden_env ''/proj'' (Some [''*.md'']) =
           Some (Inr (''- /proj/'' @ [CHR 0x0A]
                      @ ''  - src/'' @ [CHR 0x0A] @ ''    - main.py'' @ [CHR 0x0A]))"
    by code_simp
  show "forward hidden_env ''/proj/.git'' None = Some (Inr (''- /proj/.git/'' @ [CHR 0x0A]))"
    by code_simp
qed

theorem hidden_entries_are_absent_witness:
  "isabs ''/proj''
   \<and> list_directory hidden_env ''/proj'' [] = Some (Inr [''README.md'', ''src/'', ''src/main.py''])
   \<and> proper_listings hidden_env
   \<and> is_hidden ''/proj/.git'' \<and> should_skip ''/proj/.git'' [''*.py'']
   \<and> chain ''/proj'' [''.git'', ''config''] = ''/proj/.git/config''
   \<and> ''.git/config'' \<notin> set [''README.md'', ''src/'', ''src/main.py'']
   \<and> is_hidden (path_join ''/proj/src'' ''.cache'')"
proof -
  have 1: "isabs ''/proj''"
    by (simp add: isabs_def os_sep_def)
  have 2: "list_directory hidden_env ''/proj'' [] = Some (Inr [''README.md'', ''src/'', ''src/main.py''])"
    by code_simp
  have 3: "chain ''/proj'' (take 1 [''.git'', ''config'']) = ''/proj/.git''"
    by code_simp
  have 4: "chain ''/proj'' [''.git'', ''config''] = ''/proj/.git/config''"
    by code_simp
  have 5: "is_hidden ''/proj/.git''"
    by code_simp
  have 6: "str_join os_sep [''.git'', ''config''] = ''.git/config''"
    by code_simp
  show ?thesis
    using hidden_entries_are_absent
            [OF 1 2, of "''/proj/.git''" "[''*.py'']" "[''.git'', ''config'']" 1 "''.cache''" "''/proj/src''"]
      1 2 3 4 5 6 proper_listings_hidden_env valid_name_samples
    by simp
qed

subsection \<open>Ignored entries\<close>

text \<open>
  C5. A path that matches one of the ignore patterns is skipped. Every entry that
  \<open>_list_directory\<close> returns for an absolute root is the entry of a path reached from the
  root by names none of whose prefixes, the root included, matches the pattern. When
  \<open>os.listdir\<close> returns proper names only, a path of proper names below the root with a
  prefix that matches the pattern (the path itself or a directory above it) has no entry
  in the result, neither as a file nor as a directory. With the pattern \<open>*.log\<close>, the
  project holding \<open>app.log\<close> and \<open>app.py\<close> lists \<open>app.py\<close> only, while both are listed
  without the pattern; with the pattern \<open>*/b\<close>, the small project lists \<open>a.txt\<close> only:
  the file below \<open>b\<close> is absent although its own path does not match.
\<close>

theorem ignored_entries_are_absent:
  assumes abs: "isabs root" and run: "list_directory env root ign = Some (Inr rs)"
    and pat: "P \<in> set ign"
  shows "(fnmatch p P \<longrightarrow> should_skip p ign)
       \<and> (\<forall>e\<in>set rs. \<exists>ms. ms \<noteq> [] \<and> e = rel_entry env root (chain root ms)
              \<and> (\<forall>j. \<not> fnmatch (chain root (take j ms)) P))
       \<and> (proper_listings env \<and> ns \<noteq> [] \<and> (\<forall>n\<in>set ns. valid_name n)
            \<and> fnmatch (chain root (take k ns)) P
          \<longrightarrow> rel_entry env root (chain root ns) \<notin> set rs
              \<and> str_join os_sep ns \<notin> set rs \<and> str_join os_sep ns @ ''/'' \<notin> set rs)
       \<and> fnmatch ''/proj/app.log'' ''*.log'' \<and> \<not> fnmatch ''/proj/app.py'' ''*.log''
       \<and> forward logs_env ''/proj'' (Some [''*.log'']) =
           Some (Inr (''- /proj/'' @ [CHR 0x0A] @ ''  - app.py'' @ [CHR 0x0A]))
       \<and> forward logs_env ''/proj'' None =
           Some (Inr (''- /proj/'' @ [CHR 0x0A] @ ''  - app.log'' @ [CHR 0x0A]
                      @ ''  - app.py'' @ [CHR 0x0A]))
       \<and> fnmatch ''/proj//b'' ''*/b'' \<and> \<not> fnmatch ''/proj//b/c.txt'' ''*/b''
       \<and> forward small_tree_env ''/proj//'' (Some [''*/b'']) =
           Some (Inr (''- /proj/'' @ [CHR 0x0A] @ ''  - a.txt'' @ [CHR 0x0A]))"
proof (intro conjI)
  show "fnmatch p P \<longrightarrow> should_skip p ign"
    using pat by (simp add: list_ex_should_skip)
  show "\<forall>e\<in>set rs. \<exists>ms. ms \<noteq> [] \<and> e = rel_entry env root (chain root ms)
              \<and> (\<forall>j. \<not> fnmatch (chain root (take j ms)) P)"
  proof
    fix e
    assume "e \<in> set rs"
    with abs run obtain ms where ms: "ms \<noteq> []" "walk env ign root ms"
      "e = rel_entry env root (chain root ms)"
      using list_directory_traced by blast
    have "\<not> fnmatch (chain root (take j ms)) P" for j
      using walk_not_skipped [OF ms(2), of j] list_ex_should_skip [OF pat] by blast
    with ms(1,3) show "\<exists>ms. ms \<noteq> [] \<and> e = rel_entry env root (chain root ms)
              \<and> (\<forall>j. \<not> fnmatch (chain root (take j ms)) P)"
      by blast
  qed
  show "proper_listings env \<and> ns \<noteq> [] \<and> (\<forall>n\<in>set ns. valid_name n)
            \<and> fnmatch (chain root (take k ns)) P
          \<longrightarrow> rel_entry env root (chain root ns) \<notin> set rs
              \<and> str_join os_sep ns \<notin> set rs \<and> str_join os_sep ns @ ''/'' \<notin> set rs"
  proof
    assume a: "proper_listings env \<and> ns \<noteq> [] \<and> (\<forall>n\<in>set ns. valid_name n)
            \<and> fnmatch (chain root (take k ns)) P"
    then have skip: "should_skip (chain root (take k ns)) ign"
      using pat by (simp add: list_ex_should_skip)
    have 1: "str_join os_sep ns @ [] \<notin> set rs"
      using abs _ run _ _ skip by (rule skipped_absent) (use a in simp_all)
    have 2: "str_join os_sep ns @ ''/'' \<notin> set rs"
      using abs _ run _ _ skip by (rule skipped_absent) (use a in simp_all)
    have "rel_entry env root (chain root ns)
         = str_join os_sep ns @ (if os_path_isdir env (chain root ns) then ''/'' else [])"
      using abs a by (intro rel_entry_chain) simp_all
    with 1 2 show "rel_entry env root (chain root ns) \<notin> set rs
              \<and> str_join os_sep ns \<notin> set rs \<and> str_join os_sep ns @ ''/'' \<notin> set rs"
      by simp
  qed
  show "fnmatch ''/proj/app.log'' ''*.log''" by code_simp
  show "\<not> fnmatch ''/proj/app.py'' ''*.log''" by code_simp
  show "forward logs_env ''/proj'' (Some [''*.log'']) =
           Some (Inr (''- /proj/'' @ [CHR 0x0A] @ ''  - app.py'' @ [CHR 0x0A]))"
    by code_simp
  show "forward logs_env ''/proj'' None =
           Some (Inr (''- /proj/'' @ [CHR 0x0A] @ ''  - app.log'' @ [CHR 0x0A]
                      @ ''  - app.py'' @ [CHR 0x0A]))"
    by code_simp
  show "fnmatch ''/proj//b'' ''*/b''" by code_simp
  show "\<not> fnmatch ''/proj//b/c.txt'' ''*/b''" by code_simp
  show "forward small_tree_env ''/proj//'' (Some [''*/b'']) =
           Some (Inr (''- /proj/'' @ [CHR 0x0A] @ ''  - a.txt'' @ [CHR 0x0A]))"
    by code_simp
qed

theorem ignored_entries_are_absent_witness:
  "isabs ''/proj''
   \<and> list_directory logs_env ''/proj'' [''*.log''] = Some (Inr [''app.py''])
   \<and> ''*.log'' \<in> set [''*.log'']
   \<and> proper_listings logs_env
   \<and> chain ''/proj'' [''app.log''] = ''/proj/app.log''
   \<and> fnmatch ''/proj/app.log'' ''*.log'' \<and> should_skip ''/proj/app.log'' [''*.log'']
   \<and> ''app.log'' \<notin> set [''app.py'']"
proof -
  have 1: "isabs ''/proj''"
    by (simp add: isabs_def os_sep_def)
  have 2: "list_directory logs_env ''/proj'' [''*.log''] = Some (Inr [''app.py''])"
    by code_simp
  have 3: "''*.log'' \<in> set [''*.log'']"
    by simp
  have 4: "chain ''/proj'' [''app.log''] = ''/proj/app.log''"
    by code_simp
  have 5: "fnmatch ''/proj/app.log'' ''*.log''"
    by code_simp
  have 6: "str_join os_sep [''app.log''] = ''app.log''"
    by code_simp
  show ?thesis
    using ignored_entries_are_absent
            [OF 1 2 3, of "''/proj/app.log''" "[''app.log'']" 1]
      1 2 4 5 6 proper_listings_logs_env valid_name_samples
    by simp
qed

subsection \<open>Failures of \<open>os.listdir\<close>\<close>

text \<open>
  C6, as the code has it. \<open>_list_directory\<close> catches \<open>PermissionError\<close> and
  \<open>FileNotFoundError\<close> and nothing else. When \<open>os.listdir\<close> of a directory that is visited
  raises one of the two, the turn of the loop records the directory, puts no child on the
  queue and leaves the counter as it is, and the loop goes on with the rest of the queue.
  When it raises any other exception, the turn raises it, and so does the loop. For an
  existing directory with an absolute path, in a tree of bounded depth (a rank that
  decreases from every path to the children put on the queue) where \<open>os.listdir\<close>
  raises only the two exceptions, the loop returns and \<open>forward\<close> returns the tree of the
  sorted entries; and when the directories list proper names and the counter has stayed
  below the cap, every path that a walk from the root leads to, through directories that
  could be listed and paths that are not skipped, has its entry in the result. In the
  project whose directory \<open>locked\<close> cannot be listed, \<open>forward\<close> shows \<open>locked/\<close> without
  children, and the rest of the project.
\<close>

theorem caught_listing_failures_are_absorbed:
  fixes rank :: "string \<Rightarrow> nat"
  assumes abs: "isabs path" and ex: "os_path_exists env path" and dir: "os_path_isdir env path"
    and rank: "\<forall>p. \<forall>c\<in>set (enqueued env ign p). rank c < rank p"
    and caught: "\<forall>p e. os_path_isdir env p \<and> os_listdir env p = Inl e
                   \<longrightarrow> e = PermissionError \<or> e = FileNotFoundError"
  shows "(\<exists>st. scan_loop env path ign \<lparr>results = [], queue = [path], file_count = 0\<rparr> = Some (Inr st)
            \<and> forward env path (Some ign) =
                Some (Inr ((if MAX_FILES \<le> length (sort (results st)) then TRUNCATED_MESSAGE else [])
                           @ print_tree (create_file_tree (sort (results st))) path 0 []))
            \<and> (proper_listings env \<and> file_count st < MAX_FILES \<and> ns \<noteq> [] \<and> walk env ign path ns
                 \<longrightarrow> rel_entry env path (chain path ns) \<in> set (results st)))
       \<and> (queue s = p # rest \<and> p \<noteq> [] \<and> \<not> should_skip p ign' \<and> os_path_isdir env' p
            \<and> (os_listdir env' p = Inl PermissionError \<or> os_listdir env' p = Inl FileNotFoundError)
          \<longrightarrow> loop_body env' root ign' s =
                Inr \<lparr>results = results s @ (if p \<noteq> root then [rel_entry env' root p] else []),
                     queue = rest, file_count = file_count s\<rparr>)
       \<and> (queue s = p # rest \<and> p \<noteq> [] \<and> \<not> should_skip p ign' \<and> os_path_isdir env' p
            \<and> os_listdir env' p = Inl e \<and> e \<noteq> PermissionError \<and> e \<noteq> FileNotFoundError
          \<longrightarrow> loop_body env' root ign' s = Inl e
              \<and> (file_count s < MAX_FILES \<longrightarrow> scan_loop env' root ign' s = Some (Inl e)))
       \<and> forward (faulty_env PermissionError) ''/proj'' None =
           Some (Inr (''- /proj/'' @ [CHR 0x0A] @ ''  - locked/'' @ [CHR 0x0A]
                      @ ''  - ok/'' @ [CHR 0x0A] @ ''    - f.txt'' @ [CHR 0x0A]
                      @ ''  - z.txt'' @ [CHR 0x0A]))
       \<and> forward (faulty_env FileNotFoundError) ''/proj'' None =
           Some (Inr (''- /proj/'' @ [CHR 0x0A] @ ''  - locked/'' @ [CHR 0x0A]
                      @ ''  - ok/'' @ [CHR 0x0A] @ ''    - f.txt'' @ [CHR 0x0A]
                      @ ''  - z.txt'' @ [CHR 0x0A]))"
proof (intro conjI)
  have noraise: "\<forall>p e. \<not> listing_raises env p e"
    using caught unfolding listing_raises_def by blast
  have "\<exists>st. scan_loop env path ign \<lparr>results = [], queue = [path], file_count = 0\<rparr> = Some (Inr st)"
    using rank noraise by (rule scan_loop_returns) (use abs in simp)
  then obtain st where run:
    "scan_loop env path ign \<lparr>results = [], queue = [path], file_count = 0\<rparr> = Some (Inr st)"
    by blast
  have out: "forward env path (Some ign) =
                Some (Inr ((if MAX_FILES \<le> length (sort (results st)) then TRUNCATED_MESSAGE else [])
                           @ print_tree (create_file_tree (sort (results st))) path 0 []))"
    using abs ex dir run by (rule forward_Some)
  have all: "rel_entry env path (chain path ns) \<in> set (results st)"
    if "proper_listings env" "file_count st < MAX_FILES" "ns \<noteq> []" "walk env ign path ns"
    using scan_loop_covered [OF abs that(1) run that(4) that(3)] that(2) by simp
  from run out all
  show "\<exists>st. scan_loop env path ign \<lparr>results = [], queue = [path], file_count = 0\<rparr> = Some (Inr st)
            \<and> forward env path (Some ign) =
                Some (Inr ((if MAX_FILES \<le> length (sort (results st)) then TRUNCATED_MESSAGE else [])
                           @ print_tree (create_file_tree (sort (results st))) path 0 []))
            \<and> (proper_listings env \<and> file_count st < MAX_FILES \<and> ns \<noteq> [] \<and> walk env ign path ns
                 \<longrightarrow> rel_entry env path (chain path ns) \<in> set (results st))"
    by blast
  show "queue s = p # rest \<and> p \<noteq> [] \<and> \<not> should_skip p ign' \<and> os_path_isdir env' p
            \<and> (os_listdir env' p = Inl PermissionError \<or> os_listdir env' p = Inl FileNotFoundError)
          \<longrightarrow> loop_body env' root ign' s =
                Inr \<lparr>results = results s @ (if p \<noteq> root then [rel_entry env' root p] else []),
                     queue = rest, file_count = file_count s\<rparr>"
  proof
    assume a: "queue s = p # rest \<and> p \<noteq> [] \<and> \<not> should_skip p ign' \<and> os_path_isdir env' p
            \<and> (os_listdir env' p = Inl PermissionError \<or> os_listdir env' p = Inl FileNotFoundError)"
    then have "\<forall>e. \<not> listing_raises env' p e"
      by (auto simp: listing_raises_def)
    moreover have "enqueued env' ign' p = []"
      using a by (auto simp: enqueued_def)
    ultimately show "loop_body env' root ign' s =
                Inr \<lparr>results = results s @ (if p \<noteq> root then [rel_entry env' root p] else []),
                     queue = rest, file_count = file_count s\<rparr>"
      using a by (simp add: loop_body_visit)
  qed
  show "queue s = p # rest \<and> p \<noteq> [] \<and> \<not> should_skip p ign' \<and> os_path_isdir env' p
            \<and> os_listdir env' p = Inl e \<and> e \<noteq> PermissionError \<and> e \<noteq> FileNotFoundError
          \<longrightarrow> loop_body env' root ign' s = Inl e
              \<and> (file_count s < MAX_FILES \<longrightarrow> scan_loop env' root ign' s = Some (Inl e))"
  proof
    assume a: "queue s = p # rest \<and> p \<noteq> [] \<and> \<not> should_skip p ign' \<and> os_path_isdir env' p
            \<and> os_listdir env' p = Inl e \<and> e \<noteq> PermissionError \<and> e \<noteq> FileNotFoundError"
    then have "listing_raises env' p e"
      by (simp add: listing_raises_def)
    with a have body: "loop_body env' root ign' s = Inl e"
      by (simp add: loop_body_raise)
    moreover have "scan_loop env' root ign' s = Some (Inl e)" if "file_count s < MAX_FILES"
      using _ that body by (rule scan_loop_raise) (use a in simp)
    ultimately show "loop_body env' root ign' s = Inl e
              \<and> (file_count s < MAX_FILES \<longrightarrow> scan_loop env' root ign' s = Some (Inl e))"
      by blast
  qed
  show "forward (faulty_env PermissionError) ''/proj'' None =
           Some (Inr (''- /proj/'' @ [CHR 0x0A] @ ''  - locked/'' @ [CHR 0x0A]
                      @ ''  - ok/'' @ [CHR 0x0A] @ ''    - f.txt'' @ [CHR 0x0A]
                      @ ''  - z.txt'' @ [CHR 0x0A]))"
    by code_simp
  show "forward (faulty_env FileNotFoundError) ''/proj'' None =
           Some (Inr (''- /proj/'' @ [CHR 0x0A] @ ''  - locked/'' @ [CHR 0x0A]
                      @ ''  - ok/'' @ [CHR 0x0A] @ ''    - f.txt'' @ [CHR 0x0A]
                      @ ''  - z.txt'' @ [CHR 0x0A]))"
    by code_simp
qed

theorem caught_listing_failures_are_absorbed_witness:
  "isabs ''/proj'' \<and> os_path_exists (faulty_env PermissionError) ''/proj''
   \<and> os_path_isdir (faulty_env PermissionError) ''/proj''
   \<and> os_path_isdir (faulty_env PermissionError) ''/proj/locked''
   \<and> os_listdir (faulty_env PermissionError) ''/proj/locked'' = Inl PermissionError
   \<and> proper_listings (faulty_env PermissionError)
   \<and> walk (faulty_env PermissionError) [] ''/proj'' [''ok'', ''f.txt'']
   \<and> \<not> walk (faulty_env PermissionError) [] ''/proj'' [''locked'', ''secret'']
   \<and> (\<exists>st. scan_loop (faulty_env PermissionError) ''/proj'' []
               \<lparr>results = [], queue = [''/proj''], file_count = 0\<rparr> = Some (Inr st)
            \<and> file_count st = 2
            \<and> results st = [''locked/'', ''ok/'', ''z.txt'', ''ok/f.txt'']
            \<and> ''ok/f.txt'' \<in> set (results st))
   \<and> loop_body (faulty_env PermissionError) ''/proj'' []
        \<lparr>results = [], queue = [''/proj/locked'', ''/proj/ok''], file_count = 0\<rparr>
      = Inr \<lparr>results = [''locked/''], queue = [''/proj/ok''], file_count = 0\<rparr>"
proof -
  let ?env = "faulty_env PermissionError"
  let ?rank = "\<lambda>c. if c = ''/proj'' then 2 else if c = ''/proj/ok'' then 1 else (0::nat)"
  have 1: "isabs ''/proj''"
    by (simp add: isabs_def os_sep_def)
  have 2: "os_path_exists ?env ''/proj''" and 3: "os_path_isdir ?env ''/proj''"
    by (simp_all add: faulty_env_simps)
  have 4: "\<forall>p. \<forall>c\<in>set (enqueued ?env [] p). ?rank c < ?rank p"
    by (rule faulty_env_rank)
  have 5: "\<forall>p e. os_path_isdir ?env p \<and> os_listdir ?env p = Inl e
                   \<longrightarrow> e = PermissionError \<or> e = FileNotFoundError"
    using faulty_env_caught by blast
  have 6: "walk ?env [] ''/proj'' [''ok'', ''f.txt'']"
    by code_simp
  have 7: "\<not> walk ?env [] ''/proj'' [''locked'', ''secret'']"
    by code_simp
  have 8: "scan_loop ?env ''/proj'' [] \<lparr>results = [], queue = [''/proj''], file_count = 0\<rparr>
           = Some (Inr \<lparr>results = [''locked/'', ''ok/'', ''z.txt'', ''ok/f.txt''], queue = [],
                        file_count = 2\<rparr>)"
    by code_simp
  have 9: "rel_entry ?env ''/proj'' (chain ''/proj'' [''ok'', ''f.txt'']) = ''ok/f.txt''"
    by code_simp
  have 10: "\<not> should_skip ''/proj/locked'' []"
    by code_simp
  have 11: "rel_entry ?env ''/proj'' ''/proj/locked'' = ''locked/''"
    by code_simp
  have 12: "os_path_isdir ?env ''/proj/locked''" "os_listdir ?env ''/proj/locked'' = Inl PermissionError"
    by (simp_all add: faulty_env_simps)
  show ?thesis
    using caught_listing_failures_are_absorbed
            [OF 1 2 3 4 5, of "[''ok'', ''f.txt'']"
               "\<lparr>results = [], queue = [''/proj/locked'', ''/proj/ok''], file_count = 0\<rparr>"
               "''/proj/locked''" "[''/proj/ok'']" "[]" ?env "''/proj''" OSError]
      1 2 3 6 7 8 9 10 11 12 faulty_env_proper [of PermissionError]
    by (simp add: MAX_FILES_def)
qed

text \<open>
  C6, as the specification has it, fails: a failure of \<open>os.listdir\<close> other than the two
  the code catches is surfaced. In the project whose directory \<open>locked\<close> is a directory
  and raises \<open>OSError\<close> (an input/output error, say) when it is listed, \<open>forward\<close> raises
  \<open>OSError\<close> and returns no listing; likewise for \<open>NotADirectoryError\<close>.
\<close>

theorem uncaught_listing_failure_surfaces:
  "os_path_isdir (faulty_env OSError) ''/proj/locked''
   \<and> os_listdir (faulty_env OSError) ''/proj/locked'' = Inl OSError
   \<and> forward (faulty_env OSError) ''/proj'' None = Some (Inl OSError)
   \<and> forward (faulty_env NotADirectoryError) ''/proj'' None = Some (Inl NotADirectoryError)"
  by code_simp

end
